theory Spec2Isabelle
  imports Complex_Main "HOL-Library.AList" "HOL-Library.Log_Nat"
begin

section \<open>JavaScript numbers\<close>

text \<open>
  The option values \<open>retries\<close> and \<open>interval\<close> are JavaScript numbers, that is IEEE 754
  doubles: a finite value, held here as the rational it denotes, or one of the infinities,
  or NaN. The two zeros are not told apart; the builder does nothing that could. The
  builder does three things with a number: it tests it for truth (\<open>x || d\<close>), compares it
  with zero (\<open>x > 0\<close>), and decrements it (\<open>x--\<close>). The decrement is the exact difference
  rounded to the nearest double, ties to the even significand.
\<close>

datatype number = Finite rat | PosInfinity | NegInfinity | NaN

fun truthy :: "number \<Rightarrow> bool" where
  "truthy (Finite q) = (q \<noteq> 0)"
| "truthy NaN = False"
| "truthy n = True"

fun gt_zero :: "number \<Rightarrow> bool" where
  "gt_zero (Finite q) = (0 < q)"
| "gt_zero PosInfinity = True"
| "gt_zero n = False"

text \<open>\<open>ilog2 a\<close> is the integer part of the binary logarithm of a positive rational.\<close>

definition ilog2 :: "rat \<Rightarrow> int" where
  "ilog2 a =
     (case quotient_of a of
        (p, d) \<Rightarrow> (let k = bitlen p - bitlen d in if 2 powi k \<le> a then k else k - 1))"

definition round_half_even :: "rat \<Rightarrow> int" where
  "round_half_even x =
     (let m = \<lfloor>x\<rfloor>; d = x - of_int m
      in if d < 1 / 2 then m else if 1 / 2 < d then m + 1 else if even m then m else m + 1)"

text \<open>
  Rounding to a double: 53 bits of significand, the least exponent of a unit in the last
  place is \<open>-1074\<close> (the subnormal range starts below \<open>2 powi (-1022)\<close>), and a result of
  \<open>2 ^ 1024\<close> or more is an infinity.
\<close>

definition round_to_double :: "rat \<Rightarrow> number" where
  "round_to_double q =
     (if q = 0 then Finite 0
      else
        (let a = \<bar>q\<bar>;
             e = (if a < 2 powi (- 1022) then - 1074 else ilog2 a - 52);
             m = round_half_even (a / 2 powi e);
             r = of_int m * 2 powi e
         in if 2 ^ 1024 \<le> r then (if 0 < q then PosInfinity else NegInfinity)
            else Finite (sgn q * r)))"

fun minus_one :: "number \<Rightarrow> number" where
  "minus_one (Finite q) = round_to_double (q - 1)"
| "minus_one n = n"

section \<open>JavaScript values and the page under test\<close>

text \<open>
  The values that can sit in the global scope of the page. Only what the builder looks at
  is kept: the result of \<open>typeof\<close>, and the own properties of an object. A function value
  is opaque; what calling \<open>axe.run\<close> and \<open>axe.configure\<close> does is given by the host
  record below.
\<close>

datatype jsval =
    JUndefined
  | JNull
  | JBool bool
  | JNum number
  | JStr string
  | JFunction
  | JObject "(string \<times> jsval) list"

type_synonym window = "(string \<times> jsval) list"

datatype error =
    TypeError
  | ModuleNotFound
  | ResourceNotFound string
  | ScriptError string
  | EngineRuntimeFailure string

fun typeof :: "jsval \<Rightarrow> string" where
  "typeof JUndefined = ''undefined''"
| "typeof JNull = ''object''"
| "typeof (JBool b) = ''boolean''"
| "typeof (JNum n) = ''number''"
| "typeof (JStr s) = ''string''"
| "typeof JFunction = ''function''"
| "typeof (JObject ps) = ''object''"

text \<open>\<open>k in obj\<close> and \<open>obj.k\<close> on a property list; a missing property reads as undefined.\<close>

definition has_property :: "(string \<times> jsval) list \<Rightarrow> string \<Rightarrow> bool" where
  "has_property obj k = (k \<in> set (map fst obj))"

definition get_property :: "(string \<times> jsval) list \<Rightarrow> string \<Rightarrow> jsval" where
  "get_property obj k = (case map_of obj k of None \<Rightarrow> JUndefined | Some v \<Rightarrow> v)"

text \<open>
  \<open>v.k\<close> on a value: reading a property of undefined or null throws a TypeError; the
  properties of primitives and of functions are not modelled and read as undefined.
\<close>

fun member :: "jsval \<Rightarrow> string \<Rightarrow> error + jsval" where
  "member JUndefined k = Inl TypeError"
| "member JNull k = Inl TypeError"
| "member (JObject ps) k = Inr (get_property ps k)"
| "member v k = Inr JUndefined"

text \<open>
  \<open>win.axe.k(...)\<close> up to the call itself: the lookup of \<open>k\<close> on \<open>win.axe\<close> throws when
  \<open>win.axe\<close> is undefined or null, and calling a value that is not a function throws.
\<close>

definition axe_method :: "window \<Rightarrow> string \<Rightarrow> error + unit" where
  "axe_method win k =
     (case member (get_property win ''axe'') k of
        Inl e \<Rightarrow> Inl e
      | Inr f \<Rightarrow> if typeof f = ''function'' then Inr () else Inl TypeError)"

section \<open>utils\<close>

definition isAxeInjected :: "window \<Rightarrow> error + bool" where
  "isAxeInjected win =
     (if \<not> has_property win ''axe'' then Inr False
      else if typeof (get_property win ''axe'') \<noteq> ''object'' then Inr False
      else (case member (get_property win ''axe'') ''run'' of
              Inl e \<Rightarrow> Inl e
            | Inr run \<Rightarrow> Inr (typeof run = ''function'')))"

datatype selector_arg = One string | Many "string list"

fun normalizeSelector :: "selector_arg \<Rightarrow> string list" where
  "normalizeSelector (Many selectors) = selectors"
| "normalizeSelector (One selector) = [selector]"

section \<open>types\<close>

text \<open>
  An optional property of an object: the key is missing, or bound to undefined, or bound
  to a value of its declared type.
\<close>

datatype 'a optional = Absent | Undefined | Value 'a

record RunOnly =
  ro_type :: string
  ro_values :: "string list"

record RuleObject =
  enabled :: bool

text \<open>
  The object under \<open>rules\<close>: its own properties in insertion order, and its prototype when
  that has been replaced (\<open>None\<close> stands for \<open>Object.prototype\<close>). The object is an ordinary
  extensible one, so an assignment \<open>obj[k] = v\<close> adds or overwrites the own property \<open>k\<close>,
  except for the key \<open>__proto__\<close>: there it runs the setter inherited from
  \<open>Object.prototype\<close>, which makes the object \<open>v\<close> the prototype and adds no own property.
\<close>

record RulesObject =
  own_props :: "(string \<times> RuleObject) list"
  prototype :: "RuleObject option"


record AxeRunOptions =
  interval :: "number optional"
  retries :: "number optional"
  runOnly :: "RunOnly optional"
  rules :: "RulesObject optional"
  rest :: "(string \<times> jsval) list"

record ContextObject =
  ctx_include :: "string list option"
  ctx_exclude :: "string list option"

record AxeResults =
  violations :: "string list"

section \<open>The builder\<close>

record AxeBuilder =
  priv_includes :: "string list"
  priv_excludes :: "string list"
  priv_options :: AxeRunOptions

definition new_AxeBuilder :: AxeBuilder where
  "new_AxeBuilder =
     \<lparr>priv_includes = [], priv_excludes = [],
      priv_options = \<lparr>interval = Absent, retries = Absent, runOnly = Absent,
                      rules = Absent, rest = []\<rparr>\<rparr>"

definition AxeBuilder_include :: "string \<Rightarrow> AxeBuilder \<Rightarrow> AxeBuilder" where
  "AxeBuilder_include selector b =
     (if selector \<noteq> [] then b\<lparr>priv_includes := priv_includes b @ [selector]\<rparr> else b)"

definition AxeBuilder_exclude :: "string \<Rightarrow> AxeBuilder \<Rightarrow> AxeBuilder" where
  "AxeBuilder_exclude selector b =
     (if selector \<noteq> [] then b\<lparr>priv_excludes := priv_excludes b @ [selector]\<rparr> else b)"

text \<open>The object spread \<open>{...a, ...b}\<close>, key by key: a key of \<open>b\<close> wins, also when it is
  bound to undefined.\<close>

fun spread_field :: "'a optional \<Rightarrow> 'a optional \<Rightarrow> 'a optional" where
  "spread_field old Absent = old"
| "spread_field old new = new"

definition spread :: "AxeRunOptions \<Rightarrow> AxeRunOptions \<Rightarrow> AxeRunOptions" where
  "spread a b =
     \<lparr>interval = spread_field (interval a) (interval b),
      retries = spread_field (retries a) (retries b),
      runOnly = spread_field (runOnly a) (runOnly b),
      rules = spread_field (rules a) (rules b),
      rest = fold (\<lambda>(k, v). AList.update k v) (rest b) (rest a)\<rparr>"

definition options :: "AxeRunOptions \<Rightarrow> AxeBuilder \<Rightarrow> AxeBuilder" where
  "options opts b = b\<lparr>priv_options := spread (priv_options b) opts\<rparr>"

definition withRules :: "selector_arg \<Rightarrow> AxeBuilder \<Rightarrow> AxeBuilder" where
  "withRules rs b =
     (let ruleArray = normalizeSelector rs
      in b\<lparr>priv_options := (priv_options b)
             \<lparr>runOnly := Value \<lparr>ro_type = ''rule'', ro_values = ruleArray\<rparr>\<rparr>\<rparr>)"

definition withTags :: "selector_arg \<Rightarrow> AxeBuilder \<Rightarrow> AxeBuilder" where
  "withTags tags b =
     (let tagArray = normalizeSelector tags
      in b\<lparr>priv_options := (priv_options b)
             \<lparr>runOnly := Value \<lparr>ro_type = ''tag'', ro_values = tagArray\<rparr>\<rparr>\<rparr>)"



definition setLegacyMode :: "bool \<Rightarrow> AxeBuilder \<Rightarrow> AxeBuilder" where
  "setLegacyMode legacyMode b = b"

definition buildContext :: "AxeBuilder \<Rightarrow> ContextObject option" where
  "buildContext b =
     (let hasIncludes = length (priv_includes b) > 0;
          hasExcludes = length (priv_excludes b) > 0
      in if \<not> hasIncludes \<and> \<not> hasExcludes then None
         else
           (let context0 = \<lparr>ctx_include = None, ctx_exclude = None\<rparr>;
                context1 = (if hasIncludes then context0\<lparr>ctx_include := Some (priv_includes b)\<rparr>
                            else context0);
                context2 = (if hasExcludes then context1\<lparr>ctx_exclude := Some (priv_excludes b)\<rparr>
                            else context1)
            in Some context2))"

section \<open>Host, engine and trace\<close>

text \<open>
  What \<open>axe.run\<close> is called with first: \<open>context || win.document\<close>. A context object is
  truthy, so the document is passed exactly when no context was built.
\<close>

datatype target = Document | Context ContextObject

fun context_or_document :: "ContextObject option \<Rightarrow> target" where
  "context_or_document None = Document"
| "context_or_document (Some c) = Context c"

datatype event =
    ReadFile string
  | Eval string
  | Run target AxeRunOptions
  | SetTimeout number
  | Configure jsval

text \<open>
  The collaborators the builder only calls: module resolution, the runner's file read,
  \<open>win.eval\<close>, and the engine behind \<open>axe.run\<close> and \<open>axe.configure\<close>. The engine has a
  state of its own, of type \<open>'e\<close>. A call of \<open>axe.run\<close> either throws, or returns a promise
  that is rejected, or returns a promise that is resolved with results; its promise always
  settles. \<open>require_resolve\<close> is \<open>None\<close> when \<open>typeof require.resolve\<close> is not \<open>function\<close>.
  Taken for granted: \<open>cy.window\<close> yields the window; the engine changes neither the
  global scope nor the objects it is handed; and nothing else touches the page or the
  builder while a terminal operation is under way.
\<close>

datatype run_outcome = Throws error | Rejects error | Resolves AxeResults

record 'e host =
  require_resolve :: "(string \<Rightarrow> error + string) option"
  cy_readFile :: "string \<Rightarrow> error + string"
  win_eval :: "string \<Rightarrow> window \<times> 'e \<Rightarrow> (error + unit) \<times> window \<times> 'e"
  axe_run :: "target \<Rightarrow> AxeRunOptions \<Rightarrow> 'e \<Rightarrow> run_outcome \<times> 'e"
  axe_configure :: "jsval \<Rightarrow> 'e \<Rightarrow> (error + unit) \<times> 'e"

text \<open>
  The state a terminal operation runs in: the builder it is called on, the page's global
  scope, the engine's state, and the trace of the primitives invoked so far.
\<close>

record 'e state =
  builder :: AxeBuilder
  win :: window
  engine :: 'e
  trace :: "event list"

definition getAxeCorePath :: "'e host \<Rightarrow> error + string" where
  "getAxeCorePath h =
     (case require_resolve h of
        Some resolve \<Rightarrow> resolve ''axe-core/axe.min.js''
      | None \<Rightarrow> Inr ''node_modules/axe-core/axe.min.js'')"

definition injectAxeCore :: "'e host \<Rightarrow> string \<Rightarrow> 'e state \<Rightarrow> (error + unit) \<times> 'e state" where
  "injectAxeCore h source s =
     (case win_eval h source (win s, engine s) of
        (r, w, eng) \<Rightarrow> (r, s\<lparr>win := w, engine := eng, trace := trace s @ [Eval source]\<rparr>))"

definition ensureAxeInjected :: "'e host \<Rightarrow> 'e state \<Rightarrow> (error + unit) \<times> 'e state" where
  "ensureAxeInjected h s =
     (case isAxeInjected (win s) of
        Inl e \<Rightarrow> (Inl e, s)
      | Inr True \<Rightarrow> (Inr (), s)
      | Inr False \<Rightarrow>
          (case getAxeCorePath h of
             Inl e \<Rightarrow> (Inl e, s)
           | Inr axePath \<Rightarrow>
               (case cy_readFile h axePath of
                  Inl e \<Rightarrow> (Inl e, s\<lparr>trace := trace s @ [ReadFile axePath]\<rparr>)
                | Inr source \<Rightarrow>
                    injectAxeCore h source (s\<lparr>trace := trace s @ [ReadFile axePath]\<rparr>))))"

definition configure :: "'e host \<Rightarrow> jsval \<Rightarrow> 'e state \<Rightarrow> (error + AxeBuilder) \<times> 'e state" where
  "configure h config s =
     (case ensureAxeInjected h s of
        (Inl e, s1) \<Rightarrow> (Inl e, s1)
      | (Inr u, s1) \<Rightarrow>
          (case axe_method (win s1) ''configure'' of
             Inl e \<Rightarrow> (Inl e, s1)
           | Inr u \<Rightarrow>
               (case axe_configure h config (engine s1) of
                  (Inl e, eng) \<Rightarrow>
                    (Inl e, s1\<lparr>engine := eng, trace := trace s1 @ [Configure config]\<rparr>)
                | (Inr u, eng) \<Rightarrow>
                    (Inr (builder s1),
                     s1\<lparr>engine := eng, trace := trace s1 @ [Configure config]\<rparr>))))"

section \<open>analyze and its retry loop\<close>

text \<open>\<open>x || d\<close> on an optional number: missing, undefined, 0 and NaN are falsy.\<close>

fun or_number :: "number optional \<Rightarrow> number \<Rightarrow> number" where
  "or_number (Value n) d = (if truthy n then n else d)"
| "or_number p d = d"

text \<open>The rest of the destructuring \<open>{ interval, retries, ...axeOptions }\<close>.\<close>

definition axeOptions_of :: "AxeRunOptions \<Rightarrow> AxeRunOptions" where
  "axeOptions_of opts = opts\<lparr>interval := Absent, retries := Absent\<rparr>"

text \<open>
  One invocation of \<open>runAxeCheck\<close>, up to the point where it has thrown (the call
  expression \<open>win.axe.run(...)\<close> failed, or \<open>axe.run\<close> threw instead of returning a
  promise), or its promise has settled (with the results, or with the rejection of the
  engine's promise), or it has decremented \<open>remainingRetries\<close> and scheduled itself again
  with \<open>setTimeout\<close>.
\<close>

datatype 'e attempt =
    Threw error "'e state"
  | Settled "error + AxeResults" "'e state"
  | Again number "'e state"

definition runAxeCheck_once ::
  "'e host \<Rightarrow> target \<Rightarrow> AxeRunOptions \<Rightarrow> number optional \<Rightarrow> number \<Rightarrow> 'e state
     \<Rightarrow> 'e attempt" where
  "runAxeCheck_once h context axeOptions ival remainingRetries s =
     (case axe_method (win s) ''run'' of
        Inl e \<Rightarrow> Threw e s
      | Inr u \<Rightarrow>
          (case axe_run h context axeOptions (engine s) of
             (Throws e, eng) \<Rightarrow>
               Threw e (s\<lparr>engine := eng, trace := trace s @ [Run context axeOptions]\<rparr>)
           | (Rejects e, eng) \<Rightarrow>
               Settled (Inl e) (s\<lparr>engine := eng, trace := trace s @ [Run context axeOptions]\<rparr>)
           | (Resolves results, eng) \<Rightarrow>
               if length (violations results) > 0 \<and> gt_zero remainingRetries
               then Again (minus_one remainingRetries)
                      (s\<lparr>engine := eng,
                         trace := trace s @ [Run context axeOptions,
                                             SetTimeout (or_number ival (Finite 1000))]\<rparr>)
               else Settled (Inr results)
                      (s\<lparr>engine := eng, trace := trace s @ [Run context axeOptions]\<rparr>)))"

text \<open>
  The loop. \<open>None\<close> is a promise that never settles. That is the result when the loop goes
  on for ever, and also when an invocation throws inside a timer callback: the first
  invocation runs in the callback of the runner's chain, where a throw fails the chain
  with that error, but a retry runs in the callback of \<open>setTimeout\<close>, where the throw
  escapes before \<open>resolve\<close> is reached and the promise handed to the caller stays
  pending. \<open>in_timer\<close> tells the two apart.
\<close>

partial_function (option) runAxeCheck ::
  "'e host \<Rightarrow> target \<Rightarrow> AxeRunOptions \<Rightarrow> number optional \<Rightarrow> bool \<Rightarrow> number \<Rightarrow> 'e state
     \<Rightarrow> ((error + AxeResults) \<times> 'e state) option" where
  "runAxeCheck h context axeOptions ival in_timer remainingRetries s =
     (case runAxeCheck_once h context axeOptions ival remainingRetries s of
        Threw e s' \<Rightarrow> if in_timer then None else Some (Inl e, s')
      | Settled r s' \<Rightarrow> Some (r, s')
      | Again remainingRetries' s' \<Rightarrow>
          runAxeCheck h context axeOptions ival True remainingRetries' s')"

definition analyze :: "'e host \<Rightarrow> 'e state \<Rightarrow> ((error + AxeResults) \<times> 'e state) option" where
  "analyze h s =
     (case ensureAxeInjected h s of
        (Inl e, s1) \<Rightarrow> Some (Inl e, s1)
      | (Inr u, s1) \<Rightarrow>
          runAxeCheck h
            (context_or_document (buildContext (builder s1)))
            (axeOptions_of (priv_options (builder s1)))
            (interval (priv_options (builder s1)))
            False
            (or_number (retries (priv_options (builder s1))) (Finite 0))
            s1)"

text \<open>The events a call adds to the trace, and the engine runs among them.\<close>

fun is_Run :: "event \<Rightarrow> bool" where
  "is_Run (Run t opts) = True"
| "is_Run ev = False"

fun is_Configure :: "event \<Rightarrow> bool" where
  "is_Configure (Configure c) = True"
| "is_Configure ev = False"

definition run_count :: "event list \<Rightarrow> nat" where
  "run_count evs = length (filter is_Run evs)"

definition new_events :: "'e state \<Rightarrow> 'e state \<Rightarrow> event list" where
  "new_events s s' = drop (length (trace s)) (trace s')"

text \<open>What \<open>analyze\<close> reads off the builder when the scan starts.\<close>

abbreviation scan_target :: "'e state \<Rightarrow> target" where
  "scan_target s \<equiv> context_or_document (buildContext (builder s))"

abbreviation engine_options :: "'e state \<Rightarrow> AxeRunOptions" where
  "engine_options s \<equiv> axeOptions_of (priv_options (builder s))"

abbreviation retry_delay :: "'e state \<Rightarrow> number" where
  "retry_delay s \<equiv> or_number (interval (priv_options (builder s))) (Finite 1000)"

abbreviation retry_budget :: "'e state \<Rightarrow> number" where
  "retry_budget s \<equiv> or_number (retries (priv_options (builder s))) (Finite 0)"

definition set_retries :: "number optional \<Rightarrow> 'e state \<Rightarrow> 'e state" where
  "set_retries r s =
     s\<lparr>builder := (builder s)\<lparr>priv_options := (priv_options (builder s))\<lparr>retries := r\<rparr>\<rparr>\<rparr>"

section \<open>Stubs for concrete runs\<close>

text \<open>
  A page that already exposes the engine, and a host whose engine counts its runs and
  answers run number \<open>n\<close> (from 0) with \<open>out n\<close>. Its script file cannot be read, so a page
  without the engine makes injection fail.
\<close>

definition page_with_axe :: window where
  "page_with_axe = [(''axe'', JObject [(''run'', JFunction), (''configure'', JFunction)])]"

definition stub_host :: "(nat \<Rightarrow> run_outcome) \<Rightarrow> nat host" where
  "stub_host out =
     \<lparr>require_resolve = None,
      cy_readFile = (\<lambda>path. Inl (ResourceNotFound path)),
      win_eval = (\<lambda>source (w, n). (Inr (), w, n)),
      axe_run = (\<lambda>t opts n. (out n, Suc n)),
      axe_configure = (\<lambda>c n. (Inr (), n))\<rparr>"

definition stub_state :: "AxeBuilder \<Rightarrow> window \<Rightarrow> nat state" where
  "stub_state b w = \<lparr>builder = b, win = w, engine = 0, trace = []\<rparr>"

definition retrying :: "number optional \<Rightarrow> number optional \<Rightarrow> AxeBuilder" where
  "retrying r i =
     options \<lparr>interval = i, retries = r, runOnly = Absent, rules = Absent, rest = []\<rparr>
       new_AxeBuilder"

section \<open>Decrementing a double\<close>

lemma ilog2_lower:
  assumes "0 < a"
  shows "2 powi (ilog2 a) \<le> a"
proof -
  obtain p d where pd: "quotient_of a = (p, d)" by (cases "quotient_of a")
  then have d: "0 < d" and a: "a = of_int p / of_int d"
    using quotient_of_denom_pos quotient_of_div by blast+
  with assms have p: "0 < p" by (simp add: zero_less_divide_iff)
  let ?k = "bitlen p - bitlen d"
  show ?thesis
  proof (cases "2 powi ?k \<le> a")
    case True
    then show ?thesis by (simp add: ilog2_def pd)
  next
    case False
    then have il: "ilog2 a = ?k - 1" by (simp add: ilog2_def pd)
    from bitlen_bounds [OF p] have lp: "2 ^ nat (bitlen p - 1) \<le> p" by simp
    from bitlen_bounds [OF d] have ud: "d < 2 ^ nat (bitlen d)" by simp
    have bp: "1 \<le> bitlen p" using p by (simp add: bitlen_alt_def)
    have bd: "1 \<le> bitlen d" using d by (simp add: bitlen_alt_def)
    have "(2::rat) powi (?k - 1) = 2 powi (bitlen p - 1) / 2 powi (bitlen d)"
      by (simp add: power_int_diff)
    also have "\<dots> = 2 ^ nat (bitlen p - 1) / 2 ^ nat (bitlen d)"
      using bp bd by (simp add: power_int_def)
    also have "\<dots> \<le> of_int p / 2 ^ nat (bitlen d)"
    proof -
      have "(2::rat) ^ nat (bitlen p - 1) \<le> of_int p"
        using lp by (metis of_int_le_iff of_int_numeral of_int_power)
      then show ?thesis by (simp add: divide_right_mono)
    qed
    also have "\<dots> \<le> of_int p / of_int d"
    proof -
      have "(of_int d :: rat) \<le> 2 ^ nat (bitlen d)"
        using ud by (metis less_imp_le of_int_le_iff of_int_numeral of_int_power)
      with p d show ?thesis by (simp add: frac_le)
    qed
    finally show ?thesis using il a by simp
  qed
qed

lemma round_half_even_of_int [simp]: "round_half_even (of_int j) = j"
  by (simp add: round_half_even_def)

text \<open>
  A rational \<open>m * 2 powi e\<close> with \<open>\<bar>m\<bar> < 2 ^ 53\<close>, an exponent in range and a magnitude below
  \<open>2 ^ 1024\<close> is a double, and rounding leaves it as it is.
\<close>

lemma round_to_double_exact:
  assumes m: "\<bar>m\<bar> < 2 ^ 53" and e: "- 1074 \<le> e"
    and big: "of_int \<bar>m\<bar> * 2 powi e < (2::rat) ^ 1024"
  shows "round_to_double (of_int m * 2 powi e) = Finite (of_int m * 2 powi e)"
proof (cases "m = 0")
  case True
  then show ?thesis by (simp add: round_to_double_def)
next
  case False
  define q :: rat where "q = of_int m * 2 powi e"
  define a where "a = \<bar>q\<bar>"
  define ue where "ue = (if a < 2 powi (- 1022) then - 1074 else ilog2 a - 52)"
  have a: "a = of_int \<bar>m\<bar> * 2 powi e" by (simp add: a_def q_def abs_mult)
  have q0: "q \<noteq> 0" using False by (simp add: q_def)
  have apos: "0 < a" using q0 by (simp add: a_def)
  have ue: "ue \<le> e"
  proof (cases "a < 2 powi (- 1022)")
    case True
    with e show ?thesis by (simp add: ue_def)
  next
    case False
    have "(2::rat) powi (ilog2 a) \<le> a" using apos by (rule ilog2_lower)
    also have "a < 2 ^ 53 * 2 powi e"
    proof -
      have "(of_int \<bar>m\<bar> :: rat) < 2 ^ 53"
        using m by (metis of_int_less_iff of_int_numeral of_int_power)
      then show ?thesis unfolding a by (simp add: mult_strict_right_mono)
    qed
    also have "\<dots> = 2 powi (53 + e)" by (simp add: power_int_add)
    finally have lt: "(2::rat) powi (ilog2 a) < 2 powi (53 + e)" .
    have "ilog2 a < 53 + e"
    proof (rule ccontr)
      assume "\<not> ilog2 a < 53 + e"
      then have "53 + e \<le> ilog2 a" by simp
      then have "(2::rat) powi (53 + e) \<le> 2 powi (ilog2 a)"
        by (intro power_int_increasing) simp_all
      with lt show False by simp
    qed
    with False show ?thesis by (simp add: ue_def)
  qed
  define n where "n = nat (e - ue)"
  have pw: "(2::rat) powi e = 2 ^ n * 2 powi ue"
  proof -
    have "(2::rat) powi e = 2 powi (int n + ue)" using ue by (simp add: n_def)
    also have "\<dots> = 2 powi (int n) * 2 powi ue" by (rule power_int_add) simp
    finally show ?thesis by simp
  qed
  have quot: "a / 2 powi ue = of_int (\<bar>m\<bar> * 2 ^ n)"
    unfolding a pw by simp
  have recon: "of_int (\<bar>m\<bar> * 2 ^ n) * (2::rat) powi ue = a"
    unfolding a pw by simp
  have nobig: "\<not> (2::rat) ^ 1024 \<le> a" using big a by simp
  have sg: "sgn q * a = q" by (simp add: a_def abs_sgn mult.commute)
  have "round_to_double q = Finite (sgn q * a)"
    using q0 nobig
    by (simp only: round_to_double_def Let_def a_def [symmetric] ue_def [symmetric]
          quot recon round_half_even_of_int if_False)
  with sg have "round_to_double q = Finite q" by simp
  then show ?thesis by (simp only: q_def)
qed

lemma round_to_double_int:
  "\<bar>k\<bar> < 2 ^ 53 \<Longrightarrow> round_to_double (of_int k) = Finite (of_int k)"
proof -
  assume k: "\<bar>k\<bar> < 2 ^ 53"
  then have "(of_int \<bar>k\<bar> :: rat) < 2 ^ 53"
    by (metis of_int_less_iff of_int_numeral of_int_power)
  also have "(2::rat) ^ 53 < 2 ^ 1024" by (simp add: power_strict_increasing_iff)
  finally have "of_int \<bar>k\<bar> * 2 powi 0 < (2::rat) ^ 1024" by simp
  from round_to_double_exact [OF k _ this] show ?thesis by simp
qed

text \<open>On the whole numbers from 1 to \<open>2 ^ 53\<close> the decrement is exact.\<close>

lemma minus_one_int:
  "0 < k \<Longrightarrow> k \<le> 2 ^ 53 \<Longrightarrow> minus_one (Finite (of_int k)) = Finite (of_int (k - 1))"
  using round_to_double_int [of "k - 1"] by simp

lemma round_to_double_minus_half: "round_to_double (- (1 / 2)) = Finite (- (1 / 2))"
  using round_to_double_exact [of "- 1" "- 1"] by (simp add: power_int_minus)

lemma minus_one_half: "minus_one (Finite (1 / 2)) = Finite (- (1 / 2))"
  by (simp add: round_to_double_minus_half)

section \<open>The injection guard\<close>

lemma isAxeInjected_iff:
  "isAxeInjected w = Inr True \<longleftrightarrow>
     (\<exists>ps. map_of w ''axe'' = Some (JObject ps) \<and> map_of ps ''run'' = Some JFunction)"
proof (cases "map_of w ''axe''")
  case None
  then have "\<not> has_property w ''axe''"
    by (simp add: has_property_def map_of_eq_None_iff)
  with None show ?thesis by (simp add: isAxeInjected_def)
next
  case (Some v)
  then have hp: "has_property w ''axe''"
    using map_of_eq_None_iff [of w "''axe''"] by (simp add: has_property_def)
  show ?thesis
  proof (cases v)
    case (JObject ps)
    show ?thesis
    proof (cases "map_of ps ''run''")
      case None
      with Some JObject hp show ?thesis
        by (simp add: isAxeInjected_def get_property_def)
    next
      case (Some f)
      with \<open>map_of w ''axe'' = Some v\<close> JObject hp show ?thesis
        by (cases f) (simp_all add: isAxeInjected_def get_property_def)
    qed
  qed (use Some hp in \<open>simp_all add: isAxeInjected_def get_property_def\<close>)
qed

lemma injected_run_callable:
  "isAxeInjected w = Inr True \<Longrightarrow> axe_method w ''run'' = Inr ()"
  by (auto simp: isAxeInjected_iff axe_method_def get_property_def)

lemma ensureAxeInjected_skips:
  "isAxeInjected (win s) = Inr True \<Longrightarrow> ensureAxeInjected h s = (Inr (), s)"
  by (simp add: ensureAxeInjected_def)

lemma ensureAxeInjected_frame:
  "ensureAxeInjected h s = (r, s1) \<Longrightarrow>
     builder s1 = builder s \<and>
     (\<exists>evs. trace s1 = trace s @ evs \<and> (\<forall>ev\<in>set evs. \<not> is_Run ev \<and> \<not> is_Configure ev))"
  by (auto simp: ensureAxeInjected_def injectAxeCore_def
           split: sum.splits bool.splits prod.splits)

text \<open>
  C1. The specification has the guard answer true exactly when the \<open>axe\<close> object of the
  page has a callable \<open>run\<close> and a callable \<open>configure\<close>. The guard does not look at
  \<open>configure\<close>: it answers true on a page whose \<open>axe\<close> object has a callable \<open>run\<close> and
  nothing else.
\<close>

theorem isAxeInjected_configure_counterexample:
  "\<not> (isAxeInjected [(''axe'', JObject [(''run'', JFunction)])] = Inr True \<longleftrightarrow>
        axe_method [(''axe'', JObject [(''run'', JFunction)])] ''run'' = Inr () \<and>
        axe_method [(''axe'', JObject [(''run'', JFunction)])] ''configure'' = Inr ())"
  by (simp add: isAxeInjected_def has_property_def get_property_def axe_method_def)

text \<open>
  C1, amended. The guard answers true exactly when the global scope has the key \<open>axe\<close>,
  \<open>typeof\<close> of its value is \<open>object\<close>, and its \<open>run\<close> member is callable; \<open>configure\<close> is not
  examined. When the guard answers true, \<open>_ensureAxeInjected\<close> succeeds and leaves the state
  as it was: no script is read and none is evaluated.
\<close>

theorem isAxeInjected_run_only:
  "(isAxeInjected w = Inr True \<longleftrightarrow>
      has_property w ''axe'' \<and> typeof (get_property w ''axe'') = ''object'' \<and>
      axe_method w ''run'' = Inr ()) \<and>
   (isAxeInjected (win s) = Inr True \<longrightarrow>
      ensureAxeInjected h s = (Inr (), s) \<and> trace (snd (ensureAxeInjected h s)) = trace s)"
proof
  show "isAxeInjected w = Inr True \<longleftrightarrow>
      has_property w ''axe'' \<and> typeof (get_property w ''axe'') = ''object'' \<and>
      axe_method w ''run'' = Inr ()"
    by (cases "get_property w ''axe''")
       (auto simp: isAxeInjected_def axe_method_def split: sum.splits if_splits)
  show "isAxeInjected (win s) = Inr True \<longrightarrow>
      ensureAxeInjected h s = (Inr (), s) \<and> trace (snd (ensureAxeInjected h s)) = trace s"
    by (simp add: ensureAxeInjected_skips)
qed

theorem isAxeInjected_run_only_witness:
  "isAxeInjected page_with_axe = Inr True \<and>
   ensureAxeInjected (stub_host (\<lambda>n. Resolves \<lparr>violations = []\<rparr>)) (stub_state new_AxeBuilder page_with_axe) =
     (Inr (), stub_state new_AxeBuilder page_with_axe)"
proof -
  have "has_property page_with_axe ''axe'' \<and>
      typeof (get_property page_with_axe ''axe'') = ''object'' \<and>
      axe_method page_with_axe ''run'' = Inr ()"
    by (simp add: page_with_axe_def has_property_def get_property_def axe_method_def)
  with isAxeInjected_run_only [of page_with_axe, THEN conjunct1]
  have inj: "isAxeInjected page_with_axe = Inr True" by blast
  then have "isAxeInjected (win (stub_state new_AxeBuilder page_with_axe)) = Inr True"
    by (simp add: stub_state_def)
  with isAxeInjected_run_only [of _ "stub_state new_AxeBuilder page_with_axe"
      "stub_host (\<lambda>n. Resolves \<lparr>violations = []\<rparr>)", THEN conjunct2]
  have "ensureAxeInjected (stub_host (\<lambda>n. Resolves \<lparr>violations = []\<rparr>)) (stub_state new_AxeBuilder page_with_axe) =
     (Inr (), stub_state new_AxeBuilder page_with_axe)"
    by blast
  with inj show ?thesis by simp
qed

text \<open>
  What the unexamined member costs: on such a page \<open>configure\<close> skips injection and then
  fails on \<open>axe.configure\<close>, having read and evaluated nothing. And on a page whose \<open>axe\<close>
  is null the guard itself throws, since \<open>typeof null\<close> is \<open>object\<close>.
\<close>

lemma configure_on_run_only_page:
  "configure h config
       \<lparr>builder = b, win = [(''axe'', JObject [(''run'', JFunction)])], engine = eng, trace = tr\<rparr> =
     (Inl TypeError,
      \<lparr>builder = b, win = [(''axe'', JObject [(''run'', JFunction)])], engine = eng, trace = tr\<rparr>)"
  by (simp add: isAxeInjected_def has_property_def get_property_def axe_method_def
        configure_def ensureAxeInjected_def)

lemma isAxeInjected_null: "isAxeInjected [(''axe'', JNull)] = Inl TypeError"
  by (simp add: isAxeInjected_def has_property_def get_property_def)


section \<open>The configuration accumulator\<close>





text \<open>
  C9. \<open>include\<close> appends its selector to the include list exactly when the selector is a
  non-empty string, and returns the builder as it was for the empty string, the one falsy
  value of its parameter type; \<open>exclude\<close> does the same on the exclude list. Neither can
  fail: both return a builder for every input.
\<close>

theorem include_exclude_selector:
  "((priv_includes (AxeBuilder_include selector b) = priv_includes b @ [selector]) = (selector \<noteq> [])) \<and>
   (selector \<noteq> [] \<longrightarrow>
      AxeBuilder_include selector b = b\<lparr>priv_includes := priv_includes b @ [selector]\<rparr>) \<and>
   (selector = [] \<longrightarrow> AxeBuilder_include selector b = b) \<and>
   ((priv_excludes (AxeBuilder_exclude selector b) = priv_excludes b @ [selector]) = (selector \<noteq> [])) \<and>
   (selector \<noteq> [] \<longrightarrow>
      AxeBuilder_exclude selector b = b\<lparr>priv_excludes := priv_excludes b @ [selector]\<rparr>) \<and>
   (selector = [] \<longrightarrow> AxeBuilder_exclude selector b = b)"
  by (simp add: AxeBuilder_include_def AxeBuilder_exclude_def)

theorem include_exclude_selector_witness:
  "AxeBuilder_include '''' new_AxeBuilder = new_AxeBuilder \<and>
   AxeBuilder_exclude '''' new_AxeBuilder = new_AxeBuilder \<and>
   priv_includes (AxeBuilder_include ''body'' new_AxeBuilder) =
     priv_includes new_AxeBuilder @ [''body''] \<and>
   priv_excludes (AxeBuilder_exclude ''#menu-panel'' new_AxeBuilder) =
     priv_excludes new_AxeBuilder @ [''#menu-panel'']"
proof -
  note empty = include_exclude_selector [of "''''" new_AxeBuilder]
  note body = include_exclude_selector [of "''body''" new_AxeBuilder]
  note menu = include_exclude_selector [of "''#menu-panel''" new_AxeBuilder]
  have "AxeBuilder_include '''' new_AxeBuilder = new_AxeBuilder"
    using empty by blast
  moreover have "AxeBuilder_exclude '''' new_AxeBuilder = new_AxeBuilder"
    using empty by blast
  moreover have "priv_includes (AxeBuilder_include ''body'' new_AxeBuilder) =
      priv_includes new_AxeBuilder @ [''body'']"
    using body by blast
  moreover have "priv_excludes (AxeBuilder_exclude ''#menu-panel'' new_AxeBuilder) =
      priv_excludes new_AxeBuilder @ [''#menu-panel'']"
    using menu by blast
  ultimately show ?thesis by (intro conjI)
qed

text \<open>
  C7. The context depends on the include and exclude lists only. With both empty there is
  no context; otherwise the context carries the key \<open>include\<close> exactly when the include
  list is non-empty and the key \<open>exclude\<close> exactly when the exclude list is non-empty, each
  bound to the whole list in insertion order. With only the exclude \<open>#ads\<close> the context
  is exactly \<open>{exclude: ["#ads"]}\<close>.
\<close>

theorem buildContext_shape:
  "(priv_includes b = [] \<and> priv_excludes b = [] \<longrightarrow> buildContext b = None) \<and>
   (priv_includes b \<noteq> [] \<or> priv_excludes b \<noteq> [] \<longrightarrow>
      buildContext b =
        Some \<lparr>ctx_include = (if priv_includes b \<noteq> [] then Some (priv_includes b) else None),
              ctx_exclude = (if priv_excludes b \<noteq> [] then Some (priv_excludes b) else None)\<rparr>) \<and>
   (priv_includes b = [] \<and> priv_excludes b = [''#ads''] \<longrightarrow>
      buildContext b = Some \<lparr>ctx_include = None, ctx_exclude = Some [''#ads'']\<rparr>) \<and>
   (\<forall>b'. priv_includes b' = priv_includes b \<and> priv_excludes b' = priv_excludes b \<longrightarrow>
      buildContext b' = buildContext b)"
  by (simp add: buildContext_def Let_def)

theorem buildContext_shape_witness:
  "buildContext new_AxeBuilder = None \<and>
   buildContext (AxeBuilder_exclude ''#ads'' new_AxeBuilder) =
     Some \<lparr>ctx_include = None, ctx_exclude = Some [''#ads'']\<rparr>"
proof
  have "priv_includes new_AxeBuilder = [] \<and> priv_excludes new_AxeBuilder = []"
    by (simp add: new_AxeBuilder_def)
  with buildContext_shape [of new_AxeBuilder] show "buildContext new_AxeBuilder = None"
    by blast
next
  have "priv_includes (AxeBuilder_exclude ''#ads'' new_AxeBuilder) = [] \<and>
        priv_excludes (AxeBuilder_exclude ''#ads'' new_AxeBuilder) = [''#ads'']"
    by (simp add: new_AxeBuilder_def AxeBuilder_exclude_def)
  with buildContext_shape [of "AxeBuilder_exclude ''#ads'' new_AxeBuilder"]
  show "buildContext (AxeBuilder_exclude ''#ads'' new_AxeBuilder) =
     Some \<lparr>ctx_include = None, ctx_exclude = Some [''#ads'']\<rparr>"
    by blast
qed

text \<open>
  C5. The tag filter and the rule filter share \<open>runOnly\<close> and the last call wins:
  \<open>withTags\<close> followed by \<open>withRules\<close> leaves the builder exactly as \<open>withRules\<close> alone
  does, with \<open>runOnly\<close> the rule filter over the normalized rules, and the other way
  round \<open>withRules\<close> followed by \<open>withTags\<close> leaves the pure tag filter.
\<close>

theorem filters_last_write_wins:
  "withRules rs (withTags ts b) = withRules rs b \<and>
   runOnly (priv_options (withRules rs (withTags ts b))) =
     Value \<lparr>ro_type = ''rule'', ro_values = normalizeSelector rs\<rparr> \<and>
   withTags ts (withRules rs b) = withTags ts b \<and>
   runOnly (priv_options (withTags ts (withRules rs b))) =
     Value \<lparr>ro_type = ''tag'', ro_values = normalizeSelector ts\<rparr> \<and>
   runOnly (priv_options (withRules (Many [''color-contrast'']) (withTags (Many [''wcag2a'']) b))) =
     Value \<lparr>ro_type = ''rule'', ro_values = [''color-contrast'']\<rparr>"
  by (simp add: withRules_def withTags_def)





section \<open>The retry loop\<close>

lemma once_Threw:
  "runAxeCheck_once h t opts i r s = Threw e s' \<Longrightarrow>
     builder s' = builder s \<and> win s' = win s \<and>
     (trace s' = trace s \<or> trace s' = trace s @ [Run t opts])"
  by (auto simp: runAxeCheck_once_def split: sum.splits prod.splits run_outcome.splits if_splits)

lemma once_Settled:
  "runAxeCheck_once h t opts i r s = Settled res s' \<Longrightarrow>
     builder s' = builder s \<and> win s' = win s \<and> trace s' = trace s @ [Run t opts]"
  by (auto simp: runAxeCheck_once_def split: sum.splits prod.splits run_outcome.splits if_splits)

lemma once_Again:
  "runAxeCheck_once h t opts i r s = Again r' s' \<Longrightarrow>
     r' = minus_one r \<and> gt_zero r \<and> builder s' = builder s \<and> win s' = win s \<and>
     trace s' = trace s @ [Run t opts, SetTimeout (or_number i (Finite 1000))]"
  by (auto simp: runAxeCheck_once_def split: sum.splits prod.splits run_outcome.splits if_splits)


lemma once_Threw_cause:
  "runAxeCheck_once h t opts i r s = Threw e s' \<Longrightarrow>
     axe_method (win s) ''run'' \<noteq> Inr () \<or> (\<exists>eng. axe_run h t opts (engine s) = (Throws e, eng))"
  by (auto simp: runAxeCheck_once_def split: sum.splits prod.splits run_outcome.splits if_splits)

lemma runAxeCheck_settles:
  "runAxeCheck_once h t opts i r s = Settled res s' \<Longrightarrow>
     runAxeCheck h t opts i tm r s = Some (res, s')"
  by (simp add: runAxeCheck.simps [of h t opts i tm r s])

lemma runAxeCheck_throws_first:
  "runAxeCheck_once h t opts i r s = Threw e s' \<Longrightarrow>
     runAxeCheck h t opts i False r s = Some (Inl e, s')"
  by (simp add: runAxeCheck.simps [of h t opts i False r s])

lemma runAxeCheck_throws_in_timer:
  "runAxeCheck_once h t opts i r s = Threw e s' \<Longrightarrow> runAxeCheck h t opts i True r s = None"
  by (simp add: runAxeCheck.simps [of h t opts i True r s])

lemma runAxeCheck_again:
  "runAxeCheck_once h t opts i r s = Again r' s' \<Longrightarrow>
     runAxeCheck h t opts i tm r s = runAxeCheck h t opts i True r' s'"
  by (simp add: runAxeCheck.simps [of h t opts i tm r s])

lemma once_exit:
  "axe_method (win s) ''run'' = Inr () \<Longrightarrow> axe_run h t opts (engine s) = (Resolves res, eng) \<Longrightarrow>
   violations res = [] \<or> \<not> gt_zero r \<Longrightarrow>
   runAxeCheck_once h t opts i r s =
     Settled (Inr res) (s\<lparr>engine := eng, trace := trace s @ [Run t opts]\<rparr>)"
  by (auto simp: runAxeCheck_once_def)

lemma once_retry:
  "axe_method (win s) ''run'' = Inr () \<Longrightarrow> axe_run h t opts (engine s) = (Resolves res, eng) \<Longrightarrow>
   violations res \<noteq> [] \<Longrightarrow> gt_zero r \<Longrightarrow>
   runAxeCheck_once h t opts i r s =
     Again (minus_one r) (s\<lparr>engine := eng,
        trace := trace s @ [Run t opts, SetTimeout (or_number i (Finite 1000))]\<rparr>)"
  by (auto simp: runAxeCheck_once_def)

lemma once_budget_spent:
  "\<not> gt_zero r \<Longrightarrow> runAxeCheck_once h t opts i r s \<noteq> Again r' s'"
  by (auto simp: runAxeCheck_once_def split: sum.splits prod.splits run_outcome.splits)

text \<open>
  Whatever the engine answers, a loop that settles has left the builder and the page's
  globals alone and has added only runs with the arguments it was started with and delays
  of the one interval.
\<close>

lemma runAxeCheck_frame:
  assumes settled: "runAxeCheck h t opts i tm r s = Some y"
  shows "builder (snd y) = builder s \<and> win (snd y) = win s \<and>
     (\<exists>evs. trace (snd y) = trace s @ evs \<and>
            set evs \<subseteq> {Run t opts, SetTimeout (or_number i (Finite 1000))})"
proof -
  define P where "P = (\<lambda>(h :: 'a host) t opts i (tm :: bool) (r :: number) (s :: 'a state)
      (y :: (error + AxeResults) \<times> 'a state).
    builder (snd y) = builder s \<and> win (snd y) = win s \<and>
     (\<exists>evs. trace (snd y) = trace s @ evs \<and>
            set evs \<subseteq> {Run t opts, SetTimeout (or_number i (Finite 1000))}))"
  have "P h t opts i tm r s y"
  proof (rule runAxeCheck.raw_induct [where P = P, OF _ settled])
    fix loop and h :: "'a host" and t opts i tm r s and y :: "(error + AxeResults) \<times> 'a state"
    assume IH: "\<And>h t opts i tm r s y. loop h t opts i tm r s = Some y \<Longrightarrow> P h t opts i tm r s y"
      and eq: "(case runAxeCheck_once h t opts i r s of
          Threw e s' \<Rightarrow> if tm then None else Some (Inl e, s')
        | Settled r s' \<Rightarrow> Some (r, s')
        | Again remainingRetries' s' \<Rightarrow> loop h t opts i True remainingRetries' s') = Some y"
    show "P h t opts i tm r s y"
    proof (cases "runAxeCheck_once h t opts i r s")
      case (Threw e s1)
      with eq have y: "y = (Inl e, s1)" by (simp split: if_splits)
      from once_Threw [OF Threw] y show ?thesis by (auto simp: P_def)
    next
      case (Settled res s1)
      with eq have y: "y = (res, s1)" by simp
      from once_Settled [OF Settled] y show ?thesis by (auto simp: P_def)
    next
      case (Again r1 s1)
      with eq have rec: "loop h t opts i True r1 s1 = Some y" by simp
      from IH [OF rec] obtain evs where
        ih: "builder (snd y) = builder s1" "win (snd y) = win s1" "trace (snd y) = trace s1 @ evs"
            "set evs \<subseteq> {Run t opts, SetTimeout (or_number i (Finite 1000))}"
        unfolding P_def by blast
      from once_Again [OF Again] have st:
        "builder s1 = builder s" "win s1 = win s"
        "trace s1 = trace s @ [Run t opts, SetTimeout (or_number i (Finite 1000))]"
        by simp_all
      have "trace (snd y) = trace s @ ([Run t opts, SetTimeout (or_number i (Finite 1000))] @ evs)"
        using ih st by simp
      moreover have "set ([Run t opts, SetTimeout (or_number i (Finite 1000))] @ evs)
          \<subseteq> {Run t opts, SetTimeout (or_number i (Finite 1000))}"
        using ih by auto
      ultimately show ?thesis unfolding P_def using ih st by metis
    qed
  qed
  then show ?thesis by (simp add: P_def)
qed

text \<open>
  With a whole number of at most \<open>2 ^ 53\<close> for a counter, a loop that settles has run the
  engine at most once more than the counter allows.
\<close>

lemma runAxeCheck_bound:
  "n = nat k \<Longrightarrow> k \<le> 2 ^ 53 \<Longrightarrow>
   runAxeCheck h t opts i tm (Finite (of_int k)) s = Some (res, s') \<Longrightarrow>
     run_count (new_events s s') \<le> n + 1"
proof (induction n arbitrary: k s tm)
  case 0
  then have spent: "\<not> gt_zero (Finite (of_int k))" by simp
  show ?case
  proof (cases "runAxeCheck_once h t opts i (Finite (of_int k)) s")
    case (Threw e s1)
    with "0.prems"(3) have "s' = s1"
      by (simp add: runAxeCheck.simps [of h t opts i tm _ s] split: if_splits)
    with once_Threw [OF Threw] show ?thesis
      by (auto simp: new_events_def run_count_def)
  next
    case (Settled r1 s1)
    with "0.prems"(3) have "s' = s1" by (simp add: runAxeCheck_settles)
    with once_Settled [OF Settled] show ?thesis
      by (auto simp: new_events_def run_count_def)
  next
    case (Again r1 s1)
    with once_budget_spent [OF spent] show ?thesis by blast
  qed
next
  case (Suc n)
  show ?case
  proof (cases "runAxeCheck_once h t opts i (Finite (of_int k)) s")
    case (Threw e s1)
    with Suc.prems(3) have "s' = s1"
      by (simp add: runAxeCheck.simps [of h t opts i tm _ s] split: if_splits)
    with once_Threw [OF Threw] show ?thesis
      by (auto simp: new_events_def run_count_def)
  next
    case (Settled r1 s1)
    with Suc.prems(3) have "s' = s1" by (simp add: runAxeCheck_settles)
    with once_Settled [OF Settled] show ?thesis
      by (auto simp: new_events_def run_count_def)
  next
    case (Again r1 s1)
    from Suc.prems(1) have pos: "0 < k" and n: "n = nat (k - 1)" by simp_all
    from once_Again [OF Again] have r1: "r1 = minus_one (Finite (of_int k))"
      and tr: "trace s1 = trace s @ [Run t opts, SetTimeout (or_number i (Finite 1000))]"
      by simp_all
    from r1 pos Suc.prems(2) have r1': "r1 = Finite (of_int (k - 1))"
      by (simp only: minus_one_int)
    from Suc.prems(3) runAxeCheck_again [OF Again, of tm] r1'
    have rec: "runAxeCheck h t opts i True (Finite (of_int (k - 1))) s1 = Some (res, s')"
      by simp
    from Suc.prems(2) have "k - 1 \<le> 2 ^ 53" by simp
    from Suc.IH [OF n this rec] have ih: "run_count (new_events s1 s') \<le> n + 1" .
    from runAxeCheck_frame [OF rec] obtain evs where "trace s' = trace s1 @ evs" by auto
    with tr have "new_events s s' = [Run t opts, SetTimeout (or_number i (Finite 1000))] @ evs"
      and "new_events s1 s' = evs"
      by (simp_all add: new_events_def)
    with ih show ?thesis by (simp add: run_count_def)
  qed
qed

text \<open>
  It does settle when the engine never throws: a throw can then only come from the call
  expression, and that already fails the first invocation.
\<close>

lemma runAxeCheck_settles_without_throw:
  assumes nothrow: "\<forall>e0. \<forall>err eng. axe_run h t opts e0 \<noteq> (Throws err, eng)"
  shows "n = nat k \<Longrightarrow> k \<le> 2 ^ 53 \<Longrightarrow> tm \<longrightarrow> axe_method (win s) ''run'' = Inr () \<Longrightarrow>
     \<exists>y. runAxeCheck h t opts i tm (Finite (of_int k)) s = Some y"
proof (induction n arbitrary: k s tm)
  case 0
  then have spent: "\<not> gt_zero (Finite (of_int k))" by simp
  show ?case
  proof (cases "runAxeCheck_once h t opts i (Finite (of_int k)) s")
    case (Threw e s1)
    from once_Threw_cause [OF Threw] nothrow have "axe_method (win s) ''run'' \<noteq> Inr ()"
      by blast
    with "0.prems"(3) have "\<not> tm" by blast
    with Threw show ?thesis by (simp add: runAxeCheck_throws_first)
  next
    case (Settled r1 s1)
    then show ?thesis by (simp add: runAxeCheck_settles)
  next
    case (Again r1 s1)
    with once_budget_spent [OF spent] show ?thesis by blast
  qed
next
  case (Suc n)
  show ?case
  proof (cases "runAxeCheck_once h t opts i (Finite (of_int k)) s")
    case (Threw e s1)
    from once_Threw_cause [OF Threw] nothrow have "axe_method (win s) ''run'' \<noteq> Inr ()"
      by blast
    with Suc.prems(3) have "\<not> tm" by blast
    with Threw show ?thesis by (simp add: runAxeCheck_throws_first)
  next
    case (Settled r1 s1)
    then show ?thesis by (simp add: runAxeCheck_settles)
  next
    case (Again r1 s1)
    from Suc.prems(1) have pos: "0 < k" and n: "n = nat (k - 1)" by simp_all
    from once_Again [OF Again] have r1: "r1 = minus_one (Finite (of_int k))"
      and w: "win s1 = win s" by simp_all
    from r1 pos Suc.prems(2) have r1': "r1 = Finite (of_int (k - 1))"
      by (simp only: minus_one_int)
    have callable: "axe_method (win s) ''run'' = Inr ()"
      using Again by (auto simp: runAxeCheck_once_def split: sum.splits)
    from Suc.prems(2) have "k - 1 \<le> 2 ^ 53" by simp
    from Suc.IH [OF n this, of True s1] callable w
    obtain y where "runAxeCheck h t opts i True (Finite (of_int (k - 1))) s1 = Some y" by auto
    with runAxeCheck_again [OF Again, of tm] r1' show ?thesis by simp
  qed
qed

text \<open>An engine that reports a violation on every run uses the whole retry budget.\<close>

lemma runAxeCheck_always_violating:
  assumes viol: "\<forall>e. \<exists>res e'. axe_run h t opts e = (Resolves res, e') \<and> violations res \<noteq> []"
  shows "axe_method (win s) ''run'' = Inr () \<Longrightarrow> n = nat k \<Longrightarrow> k \<le> 2 ^ 53 \<Longrightarrow>
     \<exists>res eng. violations res \<noteq> [] \<and>
       runAxeCheck h t opts i tm (Finite (of_int k)) s =
         Some (Inr res, s\<lparr>engine := eng,
            trace := trace s @ concat (replicate n [Run t opts, SetTimeout (or_number i (Finite 1000))])
                       @ [Run t opts]\<rparr>)"
proof (induction n arbitrary: k s tm)
  case 0
  from viol obtain res e' where run: "axe_run h t opts (engine s) = (Resolves res, e')"
    and v: "violations res \<noteq> []" by blast
  from 0 have "\<not> gt_zero (Finite (of_int k))" by simp
  with once_exit [OF "0.prems"(1) run, of "Finite (of_int k)" i] runAxeCheck_settles v
  show ?case by fastforce
next
  case (Suc n)
  from viol obtain res e' where run: "axe_run h t opts (engine s) = (Resolves res, e')"
    and v: "violations res \<noteq> []" by blast
  from Suc.prems have pos: "0 < k" and n: "n = nat (k - 1)" and le: "k - 1 \<le> 2 ^ 53"
    by simp_all
  then have gt: "gt_zero (Finite (of_int k))" by simp
  let ?s1 = "s\<lparr>engine := e',
    trace := trace s @ [Run t opts, SetTimeout (or_number i (Finite 1000))]\<rparr>"
  have dec: "minus_one (Finite (of_int k)) = Finite (of_int (k - 1))"
    using pos Suc.prems(3) by (rule minus_one_int)
  have step: "runAxeCheck h t opts i tm (Finite (of_int k)) s =
      runAxeCheck h t opts i True (Finite (of_int (k - 1))) ?s1"
    using runAxeCheck_again [OF once_retry [OF Suc.prems(1) run v gt, of i], of tm]
    by (simp only: dec)
  have "axe_method (win ?s1) ''run'' = Inr ()" using Suc.prems(1) by simp
  from Suc.IH [OF this n le, of True] obtain res2 eng2 where
    "violations res2 \<noteq> []"
    "runAxeCheck h t opts i True (Finite (of_int (k - 1))) ?s1 =
       Some (Inr res2, ?s1\<lparr>engine := eng2,
          trace := trace ?s1 @ concat (replicate n [Run t opts, SetTimeout (or_number i (Finite 1000))])
                     @ [Run t opts]\<rparr>)"
    by blast
  with step show ?case by (intro exI [of _ res2] exI [of _ eng2]) simp
qed

text \<open>
  With the counter at infinity the decrement changes nothing: against an engine that
  reports a violation on every run the loop never ends.
\<close>

lemma runAxeCheck_infinite:
  assumes viol: "\<forall>e. \<exists>res e'. axe_run h t opts e = (Resolves res, e') \<and> violations res \<noteq> []"
    and callable: "axe_method (win s) ''run'' = Inr ()"
  shows "runAxeCheck h t opts i tm PosInfinity s = None"
proof (rule ccontr)
  assume "runAxeCheck h t opts i tm PosInfinity s \<noteq> None"
  then obtain y where settled: "runAxeCheck h t opts i tm PosInfinity s = Some y" by blast
  define P where "P = (\<lambda>(h' :: 'a host) t' opts' (i' :: number optional) (tm' :: bool)
      (r' :: number) (s' :: 'a state) (y' :: (error + AxeResults) \<times> 'a state).
    \<not> (h' = h \<and> t' = t \<and> opts' = opts \<and> r' = PosInfinity \<and>
       axe_method (win s') ''run'' = Inr ()))"
  have "P h t opts i tm PosInfinity s y"
  proof (rule runAxeCheck.raw_induct [where P = P, OF _ settled])
    fix loop and h' :: "'a host" and t' opts' i' tm' r' s'
      and y' :: "(error + AxeResults) \<times> 'a state"
    assume IH: "\<And>h t opts i tm r s y. loop h t opts i tm r s = Some y \<Longrightarrow> P h t opts i tm r s y"
      and eq: "(case runAxeCheck_once h' t' opts' i' r' s' of
          Threw e s1 \<Rightarrow> if tm' then None else Some (Inl e, s1)
        | Settled r s1 \<Rightarrow> Some (r, s1)
        | Again remainingRetries' s1 \<Rightarrow> loop h' t' opts' i' True remainingRetries' s1) = Some y'"
    show "P h' t' opts' i' tm' r' s' y'"
      unfolding P_def
    proof
      assume c: "h' = h \<and> t' = t \<and> opts' = opts \<and> r' = PosInfinity \<and>
        axe_method (win s') ''run'' = Inr ()"
      from viol obtain res e' where run: "axe_run h t opts (engine s') = (Resolves res, e')"
        and v: "violations res \<noteq> []" by blast
      from c have call: "axe_method (win s') ''run'' = Inr ()" by simp
      have "gt_zero PosInfinity" by simp
      from once_retry [OF call run v this, of i'] c
      have once: "runAxeCheck_once h' t' opts' i' r' s' =
        Again PosInfinity (s'\<lparr>engine := e',
          trace := trace s' @ [Run t opts, SetTimeout (or_number i' (Finite 1000))]\<rparr>)"
        by simp
      with eq have "loop h' t' opts' i' True PosInfinity (s'\<lparr>engine := e',
          trace := trace s' @ [Run t opts, SetTimeout (or_number i' (Finite 1000))]\<rparr>) = Some y'"
        by simp
      from IH [OF this] c show False by (simp add: P_def)
    qed
  qed
  with callable show False by (simp add: P_def)
qed

section \<open>analyze\<close>

lemma analyze_after_injection:
  "ensureAxeInjected h s = (Inr (), s1) \<Longrightarrow>
     analyze h s = runAxeCheck h (scan_target s) (engine_options s)
                     (interval (priv_options (builder s))) False (retry_budget s) s1"
  using ensureAxeInjected_frame [of h s "Inr ()" s1] by (simp add: analyze_def)

lemma analyze_injection_failed:
  "ensureAxeInjected h s = (Inl e, s1) \<Longrightarrow> analyze h s = Some (Inl e, s1)"
  by (simp add: analyze_def)

text \<open>
  The trace of a call of \<open>analyze\<close> that settles: first what injection did, which is no
  engine call, then what the loop did, which is empty unless injection succeeded.
\<close>

lemma analyze_shape:
  assumes settled: "analyze h s = Some (res, s')"
  shows "\<exists>pre scan.
     trace (snd (ensureAxeInjected h s)) = trace s @ pre \<and>
     trace s' = trace s @ pre @ scan \<and>
     (\<forall>ev\<in>set pre. \<not> is_Run ev \<and> \<not> is_Configure ev) \<and>
     set scan \<subseteq> {Run (scan_target s) (engine_options s), SetTimeout (retry_delay s)} \<and>
     (scan \<noteq> [] \<longrightarrow> fst (ensureAxeInjected h s) = Inr ()) \<and>
     builder s' = builder s \<and>
     win s' = win (snd (ensureAxeInjected h s))"
proof -
  obtain r s1 where ens: "ensureAxeInjected h s = (r, s1)" by (cases "ensureAxeInjected h s")
  from ensureAxeInjected_frame [OF ens] obtain pre where
    pre: "builder s1 = builder s" "trace s1 = trace s @ pre"
         "\<forall>ev\<in>set pre. \<not> is_Run ev \<and> \<not> is_Configure ev"
    by blast
  show ?thesis
  proof (cases r)
    case (Inl e)
    with ens settled have "s' = s1" by (simp add: analyze_injection_failed)
    with ens pre Inl show ?thesis
      by (intro exI [of _ pre] exI [of _ "[]"]) simp
  next
    case (Inr u)
    with ens have ens': "ensureAxeInjected h s = (Inr (), s1)" by simp
    from analyze_after_injection [OF ens'] settled
    have run: "runAxeCheck h (scan_target s) (engine_options s)
        (interval (priv_options (builder s))) False (retry_budget s) s1 = Some (res, s')"
      by simp
    from runAxeCheck_frame [OF run] obtain scan where
      scan: "builder s' = builder s1" "win s' = win s1" "trace s' = trace s1 @ scan"
        "set scan \<subseteq> {Run (scan_target s) (engine_options s), SetTimeout (retry_delay s)}"
      by auto
    show ?thesis
      using ens' pre scan by (intro exI [of _ pre] exI [of _ scan]) simp
  qed
qed

lemma run_count_no_runs:
  "\<forall>ev\<in>set evs. \<not> is_Run ev \<and> \<not> is_Configure ev \<Longrightarrow> run_count evs = 0"
  by (induction evs) (auto simp: run_count_def)

lemma run_count_append: "run_count (xs @ ys) = run_count xs + run_count ys"
  by (simp add: run_count_def)

lemma run_count_rounds:
  "run_count (concat (replicate n [Run t opts, SetTimeout d])) = n"
  by (induction n) (simp_all add: run_count_def)

lemma run_count_single: "run_count [Run t opts] = 1"
  by (simp add: run_count_def)

lemma new_events_trace:
  "analyze h s = Some (res, s') \<Longrightarrow> trace s' = trace s @ new_events s s'"
  using analyze_shape [of h s res s'] by (auto simp: new_events_def)

lemma new_events_after_injection:
  "ensureAxeInjected h s = (r, s1) \<Longrightarrow> trace s' = trace s1 @ scan \<Longrightarrow>
     run_count (new_events s s') = run_count scan"
proof -
  assume ens: "ensureAxeInjected h s = (r, s1)" and tr: "trace s' = trace s1 @ scan"
  from ensureAxeInjected_frame [OF ens] obtain pre where
    pre: "trace s1 = trace s @ pre" "\<forall>ev\<in>set pre. \<not> is_Run ev \<and> \<not> is_Configure ev"
    by blast
  with tr have "new_events s s' = pre @ scan" by (simp add: new_events_def)
  with pre(2) show ?thesis by (simp add: run_count_append run_count_no_runs)
qed

lemma budget_of_int:
  "retries (priv_options (builder s)) = Value (Finite (of_int k)) \<Longrightarrow>
     retry_budget s = Finite (of_int k)"
  by simp

lemma analyze_bound:
  assumes r: "retries (priv_options (builder s)) = Value (Finite (of_int k))"
    and k: "k \<le> 2 ^ 53"
    and settled: "analyze h s = Some (res, s')"
  shows "run_count (new_events s s') \<le> nat k + 1"
proof -
  obtain r1 s1 where ens: "ensureAxeInjected h s = (r1, s1)" by (cases "ensureAxeInjected h s")
  show ?thesis
  proof (cases r1)
    case (Inl e)
    with ens settled have "s' = s1" by (simp add: analyze_injection_failed)
    then have "trace s' = trace s1 @ []" by simp
    from new_events_after_injection [OF ens this] show ?thesis by (simp add: run_count_def)
  next
    case (Inr u)
    with ens have ens': "ensureAxeInjected h s = (Inr (), s1)" by simp
    from analyze_after_injection [OF ens'] settled budget_of_int [OF r]
    have run: "runAxeCheck h (scan_target s) (engine_options s)
        (interval (priv_options (builder s))) False (Finite (of_int k)) s1 = Some (res, s')"
      by simp
    from runAxeCheck_bound [OF refl k run] have b: "run_count (new_events s1 s') \<le> nat k + 1" .
    from runAxeCheck_frame [OF run] obtain scan where scan: "trace s' = trace s1 @ scan" by auto
    then have "new_events s1 s' = scan" by (simp add: new_events_def)
    with new_events_after_injection [OF ens scan] b show ?thesis by simp
  qed
qed

lemma analyze_settles:
  assumes r: "retries (priv_options (builder s)) = Value (Finite (of_int k))"
    and k: "k \<le> 2 ^ 53"
    and nothrow: "\<forall>e0. \<forall>err eng.
       axe_run h (scan_target s) (engine_options s) e0 \<noteq> (Throws err, eng)"
  shows "\<exists>y. analyze h s = Some y"
proof -
  obtain r1 s1 where ens: "ensureAxeInjected h s = (r1, s1)" by (cases "ensureAxeInjected h s")
  show ?thesis
  proof (cases r1)
    case (Inl e)
    with ens show ?thesis by (simp add: analyze_injection_failed)
  next
    case (Inr u)
    with ens have ens': "ensureAxeInjected h s = (Inr (), s1)" by simp
    from runAxeCheck_settles_without_throw [OF nothrow refl k, of False s1
        "interval (priv_options (builder s))"]
    obtain y where "runAxeCheck h (scan_target s) (engine_options s)
        (interval (priv_options (builder s))) False (Finite (of_int k)) s1 = Some y"
      by auto
    with analyze_after_injection [OF ens'] budget_of_int [OF r] show ?thesis by simp
  qed
qed

lemma analyze_always_violating:
  assumes ens: "ensureAxeInjected h s = (Inr (), s1)"
    and call: "axe_method (win s1) ''run'' = Inr ()"
    and viol: "\<forall>e. \<exists>res e'. axe_run h (scan_target s) (engine_options s) e = (Resolves res, e')
                   \<and> violations res \<noteq> []"
    and r: "retries (priv_options (builder s)) = Value (Finite (of_int k))"
    and k: "k \<le> 2 ^ 53"
  shows "\<exists>res eng. violations res \<noteq> [] \<and>
     analyze h s =
       Some (Inr res,
         s1\<lparr>engine := eng,
            trace := trace s1 @ concat (replicate (nat k)
                       [Run (scan_target s) (engine_options s), SetTimeout (retry_delay s)])
                     @ [Run (scan_target s) (engine_options s)]\<rparr>)"
  using runAxeCheck_always_violating [OF viol call refl k,
      where i = "interval (priv_options (builder s))" and tm = False]
    analyze_after_injection [OF ens] budget_of_int [OF r]
  by simp

lemma ensureAxeInjected_no_timeout:
  "ensureAxeInjected h s = (r, s1) \<Longrightarrow> trace s1 = trace s @ evs \<Longrightarrow> SetTimeout d \<notin> set evs"
  by (auto simp: ensureAxeInjected_def injectAxeCore_def
           split: sum.splits bool.splits prod.splits)

lemma analyze_timeouts:
  assumes settled: "analyze h s = Some (res, s')"
    and d: "SetTimeout d \<in> set (new_events s s')"
  shows "d = retry_delay s"
proof -
  from analyze_shape [OF settled] obtain pre scan where
    sh: "trace (snd (ensureAxeInjected h s)) = trace s @ pre"
        "trace s' = trace s @ pre @ scan"
        "set scan \<subseteq> {Run (scan_target s) (engine_options s), SetTimeout (retry_delay s)}"
    by blast
  have "SetTimeout d \<notin> set pre"
    using ensureAxeInjected_no_timeout [of h s "fst (ensureAxeInjected h s)"
        "snd (ensureAxeInjected h s)" pre d] sh(1)
    by simp
  moreover from sh(2) have "new_events s s' = pre @ scan" by (simp add: new_events_def)
  ultimately have "SetTimeout d \<in> set scan" using d by simp
  with sh(3) show ?thesis by auto
qed

lemma analyze_runs:
  assumes settled: "analyze h s = Some (res, s')"
    and ev: "ev \<in> set (new_events s s')" and run: "is_Run ev"
  shows "ev = Run (scan_target s) (engine_options s)"
proof -
  from analyze_shape [OF settled] obtain pre scan where
    sh: "trace s' = trace s @ pre @ scan"
        "\<forall>ev\<in>set pre. \<not> is_Run ev \<and> \<not> is_Configure ev"
        "set scan \<subseteq> {Run (scan_target s) (engine_options s), SetTimeout (retry_delay s)}"
    by blast
  from sh(1) have "new_events s s' = pre @ scan" by (simp add: new_events_def)
  with ev run sh(2) have "ev \<in> set scan" by auto
  with sh(3) run show ?thesis by auto
qed

text \<open>The loop and the injection never look at the builder held in the state.\<close>

lemma once_builder:
  "runAxeCheck_once h t opts i r (s\<lparr>builder := b\<rparr>) =
     (case runAxeCheck_once h t opts i r s of
        Threw e s' \<Rightarrow> Threw e (s'\<lparr>builder := b\<rparr>)
      | Settled res s' \<Rightarrow> Settled res (s'\<lparr>builder := b\<rparr>)
      | Again r' s' \<Rightarrow> Again r' (s'\<lparr>builder := b\<rparr>))"
  by (simp add: runAxeCheck_once_def split: sum.splits prod.splits run_outcome.splits)

lemma ensureAxeInjected_builder:
  "ensureAxeInjected h (s\<lparr>builder := b\<rparr>) =
     (case ensureAxeInjected h s of (r, s') \<Rightarrow> (r, s'\<lparr>builder := b\<rparr>))"
  by (simp add: ensureAxeInjected_def injectAxeCore_def
           split: sum.splits bool.splits prod.splits)

text \<open>With the budget spent from the start, the first invocation is the only one.\<close>

lemma runAxeCheck_budget_spent:
  assumes spent: "\<not> gt_zero r"
  shows "\<exists>res s'. runAxeCheck h t opts i False r s = Some (res, s') \<and>
     runAxeCheck h t opts i False r (s\<lparr>builder := b\<rparr>) = Some (res, s'\<lparr>builder := b\<rparr>) \<and>
     (trace s' = trace s \<or> trace s' = trace s @ [Run t opts]) \<and>
     (axe_method (win s) ''run'' = Inr () \<longrightarrow> trace s' = trace s @ [Run t opts])"
proof (cases "runAxeCheck_once h t opts i r s")
  case (Threw e s1)
  then have "runAxeCheck_once h t opts i r (s\<lparr>builder := b\<rparr>) = Threw e (s1\<lparr>builder := b\<rparr>)"
    by (simp add: once_builder)
  moreover have "axe_method (win s) ''run'' = Inr () \<longrightarrow> trace s1 = trace s @ [Run t opts]"
    using Threw
    by (auto simp: runAxeCheck_once_def split: sum.splits prod.splits run_outcome.splits if_splits)
  ultimately show ?thesis
    using Threw once_Threw [OF Threw] by (simp add: runAxeCheck_throws_first)
next
  case (Settled res s1)
  then have "runAxeCheck_once h t opts i r (s\<lparr>builder := b\<rparr>) = Settled res (s1\<lparr>builder := b\<rparr>)"
    by (simp add: once_builder)
  with Settled once_Settled [OF Settled] show ?thesis by (simp add: runAxeCheck_settles)
next
  case (Again r1 s1)
  with once_budget_spent [OF spent] show ?thesis by blast
qed

lemma analyze_budget_spent:
  assumes spent: "\<not> gt_zero (retry_budget s)"
    and ctx: "buildContext b = buildContext (builder s)"
    and opts: "axeOptions_of (priv_options b) = engine_options s"
    and ival: "interval (priv_options b) = interval (priv_options (builder s))"
    and budget: "or_number (retries (priv_options b)) (Finite 0) = retry_budget s"
  shows "\<exists>res s'. analyze h s = Some (res, s') \<and>
     analyze h (s\<lparr>builder := b\<rparr>) = Some (res, s'\<lparr>builder := b\<rparr>) \<and>
     run_count (new_events s s') \<le> 1 \<and>
     (\<forall>s1. ensureAxeInjected h s = (Inr (), s1) \<and> axe_method (win s1) ''run'' = Inr () \<longrightarrow>
        run_count (new_events s s') = 1)"
proof -
  obtain r s1 where ens: "ensureAxeInjected h s = (r, s1)" by (cases "ensureAxeInjected h s")
  then have ensb: "ensureAxeInjected h (s\<lparr>builder := b\<rparr>) = (r, s1\<lparr>builder := b\<rparr>)"
    by (simp add: ensureAxeInjected_builder)
  show ?thesis
  proof (cases r)
    case (Inl e)
    have "trace s1 = trace s1 @ []" by simp
    from new_events_after_injection [OF ens this] have "run_count (new_events s s1) = 0"
      by (simp add: run_count_def)
    with Inl ens ensb show ?thesis by (simp add: analyze_def)
  next
    case (Inr u)
    with ens have ens': "ensureAxeInjected h s = (Inr (), s1)" by simp
    from ensureAxeInjected_frame [OF ens] have bs1: "builder s1 = builder s" by simp
    from runAxeCheck_budget_spent [OF spent, of h "scan_target s" "engine_options s"
        "interval (priv_options (builder s))" s1 b]
    obtain res s' where
      run: "runAxeCheck h (scan_target s) (engine_options s)
              (interval (priv_options (builder s))) False (retry_budget s) s1 = Some (res, s')"
      and runb: "runAxeCheck h (scan_target s) (engine_options s)
              (interval (priv_options (builder s))) False (retry_budget s) (s1\<lparr>builder := b\<rparr>) =
            Some (res, s'\<lparr>builder := b\<rparr>)"
      and tr: "trace s' = trace s1 \<or> trace s' = trace s1 @ [Run (scan_target s) (engine_options s)]"
      and tr1: "axe_method (win s1) ''run'' = Inr () \<longrightarrow>
            trace s' = trace s1 @ [Run (scan_target s) (engine_options s)]"
      by blast
    have an: "analyze h s = Some (res, s')"
      using analyze_after_injection [OF ens'] run by simp
    have anb: "analyze h (s\<lparr>builder := b\<rparr>) = Some (res, s'\<lparr>builder := b\<rparr>)"
      using ensb Inr runb ctx opts ival budget by (simp add: analyze_def)
    have le: "run_count (new_events s s') \<le> 1"
    proof -
      from tr have "trace s' = trace s1 @ [] \<or>
          trace s' = trace s1 @ [Run (scan_target s) (engine_options s)]" by simp
      then show ?thesis
        using new_events_after_injection [OF ens] by (auto simp: run_count_def)
    qed
    have one: "\<forall>s2. ensureAxeInjected h s = (Inr (), s2) \<and> axe_method (win s2) ''run'' = Inr () \<longrightarrow>
        run_count (new_events s s') = 1"
    proof (intro allI impI)
      fix s2 assume a: "ensureAxeInjected h s = (Inr (), s2) \<and> axe_method (win s2) ''run'' = Inr ()"
      with ens' have "s2 = s1" by simp
      with a tr1 have "trace s' = trace s1 @ [Run (scan_target s) (engine_options s)]" by simp
      from new_events_after_injection [OF ens this] show "run_count (new_events s s') = 1"
        by (simp add: run_count_single)
    qed
    from an anb le one show ?thesis by blast
  qed
qed

lemma stub_injected:
  "ensureAxeInjected (stub_host out) (stub_state b page_with_axe) =
     (Inr (), stub_state b page_with_axe)"
  by (simp add: ensureAxeInjected_def isAxeInjected_def has_property_def get_property_def
        stub_state_def page_with_axe_def)

lemma stub_run_callable: "axe_method (win (stub_state b page_with_axe)) ''run'' = Inr ()"
  by (simp add: axe_method_def get_property_def stub_state_def page_with_axe_def)

lemma retrying_fields:
  "retries (priv_options (retrying r i)) = r"
  "interval (priv_options (retrying r i)) = i"
  "priv_includes (retrying r i) = []"
  "priv_excludes (retrying r i) = []"
  by (cases r; cases i; simp add: retrying_def options_def spread_def new_AxeBuilder_def)+

lemma stub_target: "scan_target (stub_state (retrying r i) w) = Document"
  by (simp add: stub_state_def retrying_fields buildContext_def)

text \<open>
  C2. The specification bounds the runs by \<open>r + 1\<close> for every retries value \<open>r \<ge> 0\<close>. The
  value is a double. With retries 0.5 and an engine that always reports a violation,
  \<open>analyze\<close> resolves after two runs, which is more than 1.5: the counter is above zero
  before the one retry and at -0.5 after it. With retries at infinity the decrement
  leaves the counter as it is and \<open>analyze\<close> never settles. And with retries 1, when
  \<open>axe.run\<close> throws on the retry, the throw happens inside the timer callback and
  \<open>analyze\<close> never settles either.
\<close>

theorem analyze_retry_bound_counterexample:
  "analyze (stub_host (\<lambda>n. Resolves \<lparr>violations = [''image-alt'']\<rparr>))
       (stub_state (retrying (Value (Finite (1 / 2))) Absent) page_with_axe) =
     Some (Inr \<lparr>violations = [''image-alt'']\<rparr>,
       \<lparr>builder = retrying (Value (Finite (1 / 2))) Absent, win = page_with_axe, engine = 2,
        trace = [Run Document (axeOptions_of (priv_options (retrying (Value (Finite (1 / 2))) Absent))),
                 SetTimeout (Finite 1000),
                 Run Document (axeOptions_of (priv_options (retrying (Value (Finite (1 / 2))) Absent)))]\<rparr>) \<and>
   \<not> rat_of_nat (run_count
        [Run Document (axeOptions_of (priv_options (retrying (Value (Finite (1 / 2))) Absent))),
         SetTimeout (Finite 1000),
         Run Document (axeOptions_of (priv_options (retrying (Value (Finite (1 / 2))) Absent)))])
      \<le> 1 / 2 + 1 \<and>
   analyze (stub_host (\<lambda>n. Resolves \<lparr>violations = [''image-alt'']\<rparr>))
       (stub_state (retrying (Value PosInfinity) Absent) page_with_axe) = None \<and>
   analyze (stub_host (\<lambda>n. if n = 0 then Resolves \<lparr>violations = [''image-alt'']\<rparr>
                            else Throws (EngineRuntimeFailure ''run'')))
       (stub_state (retrying (Value (Finite 1)) Absent) page_with_axe) = None"
proof (intro conjI)
  let ?h = "stub_host (\<lambda>n. Resolves \<lparr>violations = [''image-alt'']\<rparr>)"
  let ?s = "stub_state (retrying (Value (Finite (1 / 2))) Absent) page_with_axe"
  let ?o = "axeOptions_of (priv_options (retrying (Value (Finite (1 / 2))) Absent))"
  let ?s1 = "?s\<lparr>engine := 1, trace := trace ?s @ [Run Document ?o, SetTimeout (Finite 1000)]\<rparr>"
  have budget: "retry_budget ?s = Finite (1 / 2)" and ival: "interval (priv_options (builder ?s)) = Absent"
    and opts: "engine_options ?s = ?o"
    by (simp_all add: stub_state_def retrying_fields)
  have run0: "axe_run ?h Document ?o (engine ?s) = (Resolves \<lparr>violations = [''image-alt'']\<rparr>, 1)"
    by (simp add: stub_host_def stub_state_def)
  have first: "runAxeCheck_once ?h Document ?o Absent (Finite (1 / 2)) ?s = Again (Finite (- (1 / 2))) ?s1"
    using once_retry [OF stub_run_callable run0, of "Finite (1 / 2)" Absent]
    by (simp add: round_to_double_minus_half)
  have call1: "axe_method (win ?s1) ''run'' = Inr ()" using stub_run_callable [of "retrying (Value (Finite (1 / 2))) Absent"] by simp
  have run1: "axe_run ?h Document ?o (engine ?s1) = (Resolves \<lparr>violations = [''image-alt'']\<rparr>, 2)"
    by (simp add: stub_host_def)
  have second: "runAxeCheck_once ?h Document ?o Absent (Finite (- (1 / 2))) ?s1 =
      Settled (Inr \<lparr>violations = [''image-alt'']\<rparr>)
        (?s1\<lparr>engine := 2, trace := trace ?s1 @ [Run Document ?o]\<rparr>)"
    using once_exit [OF call1 run1, of "Finite (- (1 / 2))" Absent] by simp
  have "analyze ?h ?s = Some (Inr \<lparr>violations = [''image-alt'']\<rparr>,
      ?s1\<lparr>engine := 2, trace := trace ?s1 @ [Run Document ?o]\<rparr>)"
    using analyze_after_injection [OF stub_injected, of "\<lambda>n. Resolves \<lparr>violations = [''image-alt'']\<rparr>"
        "retrying (Value (Finite (1 / 2))) Absent"]
      runAxeCheck_again [OF first, of False] runAxeCheck_settles [OF second, of True]
    by (simp add: budget ival opts stub_target)
  then show "analyze ?h ?s =
     Some (Inr \<lparr>violations = [''image-alt'']\<rparr>,
       \<lparr>builder = retrying (Value (Finite (1 / 2))) Absent, win = page_with_axe, engine = 2,
        trace = [Run Document ?o, SetTimeout (Finite 1000), Run Document ?o]\<rparr>)"
    by (simp add: stub_state_def)
  show "\<not> rat_of_nat (run_count [Run Document ?o, SetTimeout (Finite 1000), Run Document ?o])
      \<le> 1 / 2 + 1"
    by (simp add: run_count_def)
next
  let ?h = "stub_host (\<lambda>n. Resolves \<lparr>violations = [''image-alt'']\<rparr>)"
  let ?s = "stub_state (retrying (Value PosInfinity) Absent) page_with_axe"
  have viol: "\<forall>e. \<exists>res e'. axe_run ?h (scan_target ?s) (engine_options ?s) e = (Resolves res, e')
      \<and> violations res \<noteq> []"
    by (simp add: stub_host_def)
  have "retry_budget ?s = PosInfinity" by (simp add: stub_state_def retrying_fields)
  with analyze_after_injection [OF stub_injected, of "\<lambda>n. Resolves \<lparr>violations = [''image-alt'']\<rparr>"
      "retrying (Value PosInfinity) Absent"]
    runAxeCheck_infinite [OF viol stub_run_callable, of "interval (priv_options (builder ?s))" False]
  show "analyze ?h ?s = None" by simp
next
  let ?out = "\<lambda>n::nat. if n = 0 then Resolves \<lparr>violations = [''image-alt'']\<rparr>
                            else Throws (EngineRuntimeFailure ''run'')"
  let ?h = "stub_host ?out"
  let ?s = "stub_state (retrying (Value (Finite 1)) Absent) page_with_axe"
  let ?o = "axeOptions_of (priv_options (retrying (Value (Finite 1)) Absent))"
  let ?s1 = "?s\<lparr>engine := 1, trace := trace ?s @ [Run Document ?o, SetTimeout (Finite 1000)]\<rparr>"
  have budget: "retry_budget ?s = Finite 1" and ival: "interval (priv_options (builder ?s)) = Absent"
    and opts: "engine_options ?s = ?o"
    by (simp_all add: stub_state_def retrying_fields)
  have run0: "axe_run ?h Document ?o (engine ?s) = (Resolves \<lparr>violations = [''image-alt'']\<rparr>, 1)"
    by (simp add: stub_host_def stub_state_def)
  have "minus_one (Finite 1) = Finite 0" using minus_one_int [of 1] by simp
  then have first: "runAxeCheck_once ?h Document ?o Absent (Finite 1) ?s = Again (Finite 0) ?s1"
    using once_retry [OF stub_run_callable run0, of "Finite 1" Absent] by simp
  have second: "runAxeCheck_once ?h Document ?o Absent (Finite 0) ?s1 =
      Threw (EngineRuntimeFailure ''run'')
        (?s1\<lparr>engine := 2, trace := trace ?s1 @ [Run Document ?o]\<rparr>)"
    by (simp add: runAxeCheck_once_def stub_host_def stub_state_def axe_method_def
          get_property_def page_with_axe_def)
  show "analyze ?h ?s = None"
    using analyze_after_injection [OF stub_injected, of ?out "retrying (Value (Finite 1)) Absent"]
      runAxeCheck_again [OF first, of False] runAxeCheck_throws_in_timer [OF second]
    by (simp add: budget ival opts stub_target)
qed

text \<open>
  C2, amended. Let the configured retries be a whole number \<open>k\<close> with \<open>0 \<le> k \<le> 2 ^ 53\<close>.
  A call of \<open>analyze\<close> that settles has made at most \<open>k + 1\<close> engine runs, and the call
  does settle when \<open>axe.run\<close> never throws. When injection has succeeded, \<open>axe.run\<close> is
  callable and every result of the engine has a violation, \<open>analyze\<close> resolves after
  exactly \<open>k + 1\<close> runs, with a delay of the interval between consecutive runs: three runs
  and two delays for retries 2, the delay being 1000 when no interval is set. On every
  retry the remaining-retries counter, a whole number in that range, goes down by exactly
  one and stays non-negative.
\<close>

theorem analyze_retry_bound:
  "(\<forall>k res s'. retries (priv_options (builder s)) = Value (Finite (of_int k)) \<and>
        0 \<le> k \<and> k \<le> 2 ^ 53 \<and> analyze h s = Some (res, s') \<longrightarrow>
      trace s' = trace s @ new_events s s' \<and>
      int (run_count (new_events s s')) \<le> k + 1) \<and>
   (\<forall>k. retries (priv_options (builder s)) = Value (Finite (of_int k)) \<and>
        0 \<le> k \<and> k \<le> 2 ^ 53 \<and>
        (\<forall>e0 err eng. axe_run h (scan_target s) (engine_options s) e0 \<noteq> (Throws err, eng)) \<longrightarrow>
      (\<exists>res s'. analyze h s = Some (res, s'))) \<and>
   (\<forall>k s1. retries (priv_options (builder s)) = Value (Finite (of_int k)) \<and>
        0 \<le> k \<and> k \<le> 2 ^ 53 \<and>
        ensureAxeInjected h s = (Inr (), s1) \<and> axe_method (win s1) ''run'' = Inr () \<and>
        (\<forall>e. \<exists>res e'. axe_run h (scan_target s) (engine_options s) e = (Resolves res, e')
                 \<and> violations res \<noteq> []) \<longrightarrow>
      (\<exists>res eng. violations res \<noteq> [] \<and>
         analyze h s =
           Some (Inr res,
             s1\<lparr>engine := eng,
                trace := trace s1 @ concat (replicate (nat k)
                           [Run (scan_target s) (engine_options s), SetTimeout (retry_delay s)])
                         @ [Run (scan_target s) (engine_options s)]\<rparr>) \<and>
         run_count (new_events s
             (s1\<lparr>engine := eng,
                trace := trace s1 @ concat (replicate (nat k)
                           [Run (scan_target s) (engine_options s), SetTimeout (retry_delay s)])
                         @ [Run (scan_target s) (engine_options s)]\<rparr>)) = nat k + 1)) \<and>
   (\<forall>s1. retries (priv_options (builder s)) = Value (Finite 2) \<and>
        ensureAxeInjected h s = (Inr (), s1) \<and> axe_method (win s1) ''run'' = Inr () \<and>
        (\<forall>e. \<exists>res e'. axe_run h (scan_target s) (engine_options s) e = (Resolves res, e')
                 \<and> violations res \<noteq> []) \<longrightarrow>
      (\<exists>res eng. violations res \<noteq> [] \<and>
         analyze h s =
           Some (Inr res,
             s1\<lparr>engine := eng,
                trace := trace s1 @
                  [Run (scan_target s) (engine_options s), SetTimeout (retry_delay s),
                   Run (scan_target s) (engine_options s), SetTimeout (retry_delay s),
                   Run (scan_target s) (engine_options s)]\<rparr>) \<and>
         run_count (new_events s
             (s1\<lparr>engine := eng,
                trace := trace s1 @
                  [Run (scan_target s) (engine_options s), SetTimeout (retry_delay s),
                   Run (scan_target s) (engine_options s), SetTimeout (retry_delay s),
                   Run (scan_target s) (engine_options s)]\<rparr>)) = 3)) \<and>
   (interval (priv_options (builder s)) = Absent \<longrightarrow> retry_delay s = Finite 1000) \<and>
   (\<forall>d. interval (priv_options (builder s)) = Value d \<and> truthy d \<longrightarrow> retry_delay s = d) \<and>
   (\<forall>t opts i k ls r' ls'.
      runAxeCheck_once h t opts i (Finite (of_int k)) ls = Again r' ls' \<and> k \<le> 2 ^ 53 \<longrightarrow>
      r' = Finite (of_int (k - 1)) \<and> 0 \<le> k - 1 \<and> k - 1 < k)"
proof -
  have bound: "\<forall>k res s'. retries (priv_options (builder s)) = Value (Finite (of_int k)) \<and>
        0 \<le> k \<and> k \<le> 2 ^ 53 \<and> analyze h s = Some (res, s') \<longrightarrow>
      trace s' = trace s @ new_events s s' \<and>
      int (run_count (new_events s s')) \<le> k + 1"
  proof (intro allI impI)
    fix k res s'
    assume a: "retries (priv_options (builder s)) = Value (Finite (of_int k)) \<and>
        0 \<le> k \<and> k \<le> 2 ^ 53 \<and> analyze h s = Some (res, s')"
    then have r: "retries (priv_options (builder s)) = Value (Finite (of_int k))"
      and k0: "0 \<le> k" and k: "k \<le> 2 ^ 53" and settled: "analyze h s = Some (res, s')"
      by simp_all
    from analyze_bound [OF r k settled] k0
    have "int (run_count (new_events s s')) \<le> k + 1" by arith
    with new_events_trace [OF settled]
    show "trace s' = trace s @ new_events s s' \<and> int (run_count (new_events s s')) \<le> k + 1"
      by simp
  qed
  have settles: "\<forall>k. retries (priv_options (builder s)) = Value (Finite (of_int k)) \<and>
        0 \<le> k \<and> k \<le> 2 ^ 53 \<and>
        (\<forall>e0 err eng. axe_run h (scan_target s) (engine_options s) e0 \<noteq> (Throws err, eng)) \<longrightarrow>
      (\<exists>res s'. analyze h s = Some (res, s'))"
  proof (intro allI impI)
    fix k
    assume a: "retries (priv_options (builder s)) = Value (Finite (of_int k)) \<and>
        0 \<le> k \<and> k \<le> 2 ^ 53 \<and>
        (\<forall>e0 err eng. axe_run h (scan_target s) (engine_options s) e0 \<noteq> (Throws err, eng))"
    then have r: "retries (priv_options (builder s)) = Value (Finite (of_int k))"
      and k: "k \<le> 2 ^ 53"
      and nothrow: "\<forall>e0. \<forall>err eng.
        axe_run h (scan_target s) (engine_options s) e0 \<noteq> (Throws err, eng)"
      by simp_all
    from analyze_settles [OF r k nothrow] show "\<exists>res s'. analyze h s = Some (res, s')"
      by auto
  qed
  have general: "\<forall>k s1. retries (priv_options (builder s)) = Value (Finite (of_int k)) \<and>
        0 \<le> k \<and> k \<le> 2 ^ 53 \<and>
        ensureAxeInjected h s = (Inr (), s1) \<and> axe_method (win s1) ''run'' = Inr () \<and>
        (\<forall>e. \<exists>res e'. axe_run h (scan_target s) (engine_options s) e = (Resolves res, e')
                 \<and> violations res \<noteq> []) \<longrightarrow>
      (\<exists>res eng. violations res \<noteq> [] \<and>
         analyze h s =
           Some (Inr res,
             s1\<lparr>engine := eng,
                trace := trace s1 @ concat (replicate (nat k)
                           [Run (scan_target s) (engine_options s), SetTimeout (retry_delay s)])
                         @ [Run (scan_target s) (engine_options s)]\<rparr>) \<and>
         run_count (new_events s
             (s1\<lparr>engine := eng,
                trace := trace s1 @ concat (replicate (nat k)
                           [Run (scan_target s) (engine_options s), SetTimeout (retry_delay s)])
                         @ [Run (scan_target s) (engine_options s)]\<rparr>)) = nat k + 1)"
  proof (intro allI impI)
    fix k s1
    assume a: "retries (priv_options (builder s)) = Value (Finite (of_int k)) \<and>
        0 \<le> k \<and> k \<le> 2 ^ 53 \<and>
        ensureAxeInjected h s = (Inr (), s1) \<and> axe_method (win s1) ''run'' = Inr () \<and>
        (\<forall>e. \<exists>res e'. axe_run h (scan_target s) (engine_options s) e = (Resolves res, e')
                 \<and> violations res \<noteq> [])"
    then have r: "retries (priv_options (builder s)) = Value (Finite (of_int k))"
      and k: "k \<le> 2 ^ 53"
      and ens: "ensureAxeInjected h s = (Inr (), s1)"
      and call: "axe_method (win s1) ''run'' = Inr ()"
      and viol: "\<forall>e. \<exists>res e'. axe_run h (scan_target s) (engine_options s) e = (Resolves res, e')
                 \<and> violations res \<noteq> []"
      by simp_all
    let ?evs = "concat (replicate (nat k)
        [Run (scan_target s) (engine_options s), SetTimeout (retry_delay s)])
      @ [Run (scan_target s) (engine_options s)]"
    from analyze_always_violating [OF ens call viol r k] obtain res eng where
      v: "violations res \<noteq> []" and
      an: "analyze h s = Some (Inr res, s1\<lparr>engine := eng, trace := trace s1 @ ?evs\<rparr>)"
      by blast
    have "trace (s1\<lparr>engine := eng, trace := trace s1 @ ?evs\<rparr>) = trace s1 @ ?evs" by simp
    from new_events_after_injection [OF ens this]
    have "run_count (new_events s (s1\<lparr>engine := eng, trace := trace s1 @ ?evs\<rparr>)) = nat k + 1"
      by (simp add: run_count_append run_count_rounds run_count_single)
    with v an show "\<exists>res eng. violations res \<noteq> [] \<and>
         analyze h s = Some (Inr res, s1\<lparr>engine := eng, trace := trace s1 @ ?evs\<rparr>) \<and>
         run_count (new_events s (s1\<lparr>engine := eng, trace := trace s1 @ ?evs\<rparr>)) = nat k + 1"
      by blast
  qed
  have two: "\<forall>s1. retries (priv_options (builder s)) = Value (Finite 2) \<and>
        ensureAxeInjected h s = (Inr (), s1) \<and> axe_method (win s1) ''run'' = Inr () \<and>
        (\<forall>e. \<exists>res e'. axe_run h (scan_target s) (engine_options s) e = (Resolves res, e')
                 \<and> violations res \<noteq> []) \<longrightarrow>
      (\<exists>res eng. violations res \<noteq> [] \<and>
         analyze h s =
           Some (Inr res,
             s1\<lparr>engine := eng,
                trace := trace s1 @
                  [Run (scan_target s) (engine_options s), SetTimeout (retry_delay s),
                   Run (scan_target s) (engine_options s), SetTimeout (retry_delay s),
                   Run (scan_target s) (engine_options s)]\<rparr>) \<and>
         run_count (new_events s
             (s1\<lparr>engine := eng,
                trace := trace s1 @
                  [Run (scan_target s) (engine_options s), SetTimeout (retry_delay s),
                   Run (scan_target s) (engine_options s), SetTimeout (retry_delay s),
                   Run (scan_target s) (engine_options s)]\<rparr>)) = 3)"
  proof (intro allI impI)
    fix s1
    assume a: "retries (priv_options (builder s)) = Value (Finite 2) \<and>
        ensureAxeInjected h s = (Inr (), s1) \<and> axe_method (win s1) ''run'' = Inr () \<and>
        (\<forall>e. \<exists>res e'. axe_run h (scan_target s) (engine_options s) e = (Resolves res, e')
                 \<and> violations res \<noteq> [])"
    then have "retries (priv_options (builder s)) = Value (Finite (of_int 2)) \<and>
        (0::int) \<le> 2 \<and> (2::int) \<le> 2 ^ 53 \<and>
        ensureAxeInjected h s = (Inr (), s1) \<and> axe_method (win s1) ''run'' = Inr () \<and>
        (\<forall>e. \<exists>res e'. axe_run h (scan_target s) (engine_options s) e = (Resolves res, e')
                 \<and> violations res \<noteq> [])"
      by simp
    with general [rule_format, of 2 s1] obtain res eng where
      v: "violations res \<noteq> []" and
      an: "analyze h s =
           Some (Inr res,
             s1\<lparr>engine := eng,
                trace := trace s1 @ concat (replicate (nat 2)
                           [Run (scan_target s) (engine_options s), SetTimeout (retry_delay s)])
                         @ [Run (scan_target s) (engine_options s)]\<rparr>)" and
      rc: "run_count (new_events s
             (s1\<lparr>engine := eng,
                trace := trace s1 @ concat (replicate (nat 2)
                           [Run (scan_target s) (engine_options s), SetTimeout (retry_delay s)])
                         @ [Run (scan_target s) (engine_options s)]\<rparr>)) = nat 2 + 1"
      by blast
    have n2: "nat 2 = Suc (Suc 0)" by simp
    from v an rc
    show "\<exists>res eng. violations res \<noteq> [] \<and>
         analyze h s =
           Some (Inr res,
             s1\<lparr>engine := eng,
                trace := trace s1 @
                  [Run (scan_target s) (engine_options s), SetTimeout (retry_delay s),
                   Run (scan_target s) (engine_options s), SetTimeout (retry_delay s),
                   Run (scan_target s) (engine_options s)]\<rparr>) \<and>
         run_count (new_events s
             (s1\<lparr>engine := eng,
                trace := trace s1 @
                  [Run (scan_target s) (engine_options s), SetTimeout (retry_delay s),
                   Run (scan_target s) (engine_options s), SetTimeout (retry_delay s),
                   Run (scan_target s) (engine_options s)]\<rparr>)) = 3"
      unfolding n2 by (intro exI [of _ res] exI [of _ eng]) simp
  qed
  have counter: "\<forall>t opts i k ls r' ls'.
      runAxeCheck_once h t opts i (Finite (of_int k)) ls = Again r' ls' \<and> k \<le> 2 ^ 53 \<longrightarrow>
      r' = Finite (of_int (k - 1)) \<and> 0 \<le> k - 1 \<and> k - 1 < k"
  proof (intro allI impI)
    fix t opts i k r' and ls ls' :: "'a state"
    assume a: "runAxeCheck_once h t opts i (Finite (of_int k)) ls = Again r' ls' \<and> k \<le> 2 ^ 53"
    then have once: "runAxeCheck_once h t opts i (Finite (of_int k)) ls = Again r' ls'"
      and k: "k \<le> 2 ^ 53" by simp_all
    from once_Again [OF once] have r': "r' = minus_one (Finite (of_int k))" and pos: "0 < k"
      by simp_all
    from minus_one_int [OF pos k] r' pos
    show "r' = Finite (of_int (k - 1)) \<and> 0 \<le> k - 1 \<and> k - 1 < k" by simp
  qed
  have d1: "interval (priv_options (builder s)) = Absent \<longrightarrow> retry_delay s = Finite 1000"
    by simp
  have d2: "\<forall>d. interval (priv_options (builder s)) = Value d \<and> truthy d \<longrightarrow> retry_delay s = d"
    by simp
  from bound settles general two d1 d2 counter show ?thesis by (intro conjI)
qed

theorem analyze_retry_bound_witness:
  "\<exists>res eng. analyze (stub_host (\<lambda>n. Resolves \<lparr>violations = [''color-contrast'']\<rparr>))
                 (stub_state (retrying (Value (Finite 2)) Absent) page_with_axe) =
     Some (Inr res,
       \<lparr>builder = retrying (Value (Finite 2)) Absent, win = page_with_axe, engine = eng,
        trace =
          [Run Document (axeOptions_of (priv_options (retrying (Value (Finite 2)) Absent))),
           SetTimeout (Finite 1000),
           Run Document (axeOptions_of (priv_options (retrying (Value (Finite 2)) Absent))),
           SetTimeout (Finite 1000),
           Run Document (axeOptions_of (priv_options (retrying (Value (Finite 2)) Absent)))]\<rparr>)"
proof -
  let ?h = "stub_host (\<lambda>n. Resolves \<lparr>violations = [''color-contrast'']\<rparr>)"
  let ?s = "stub_state (retrying (Value (Finite 2)) Absent) page_with_axe"
  have hyps: "retries (priv_options (builder ?s)) = Value (Finite 2) \<and>
      ensureAxeInjected ?h ?s = (Inr (), ?s) \<and> axe_method (win ?s) ''run'' = Inr () \<and>
      (\<forall>e. \<exists>res e'. axe_run ?h (scan_target ?s) (engine_options ?s) e = (Resolves res, e')
          \<and> violations res \<noteq> [])"
    by (simp add: stub_injected stub_run_callable)
       (simp add: stub_host_def stub_state_def retrying_fields)
  from analyze_retry_bound [of ?s ?h, THEN conjunct2, THEN conjunct2, THEN conjunct2,
      THEN conjunct1] hyps
  obtain res eng where
    an: "analyze ?h ?s =
      Some (Inr res,
        ?s\<lparr>engine := eng,
           trace := trace ?s @
             [Run (scan_target ?s) (engine_options ?s), SetTimeout (retry_delay ?s),
              Run (scan_target ?s) (engine_options ?s), SetTimeout (retry_delay ?s),
              Run (scan_target ?s) (engine_options ?s)]\<rparr>)"
    by blast
  then show ?thesis
    by (intro exI [of _ res] exI [of _ eng])
       (simp add: stub_state_def retrying_fields buildContext_def)
qed



text \<open>
  C4. A call of \<open>analyze\<close> that settles leaves the builder as it was. Every engine run it
  has made, the first and every retry, has the same two arguments: the context built from
  the builder when the scan starts (or the document) and the builder's options without
  the keys \<open>interval\<close> and \<open>retries\<close>, every other key as the builder has it. No
  invocation of the loop touches the builder, whatever its outcome, each adds at most one
  run, with the context and options the loop was started with, and across a retry only
  the remaining-retries counter changes: the loop goes on with the same context, options
  and interval.
\<close>

theorem analyze_frame:
  "(\<forall>res s'. analyze h s = Some (res, s') \<longrightarrow>
      builder s' = builder s \<and>
      (\<forall>ev\<in>set (new_events s s'). is_Run ev \<longrightarrow>
         ev = Run (scan_target s) (engine_options s))) \<and>
   engine_options s = (priv_options (builder s))\<lparr>interval := Absent, retries := Absent\<rparr> \<and>
   interval (engine_options s) = Absent \<and>
   retries (engine_options s) = Absent \<and>
   runOnly (engine_options s) = runOnly (priv_options (builder s)) \<and>
   rules (engine_options s) = rules (priv_options (builder s)) \<and>
   rest (engine_options s) = rest (priv_options (builder s)) \<and>
   (\<forall>t opts i r ls e ls'. runAxeCheck_once h t opts i r ls = Threw e ls' \<longrightarrow>
      builder ls' = builder ls \<and>
      (trace ls' = trace ls \<or> trace ls' = trace ls @ [Run t opts])) \<and>
   (\<forall>t opts i r ls res ls'. runAxeCheck_once h t opts i r ls = Settled res ls' \<longrightarrow>
      builder ls' = builder ls \<and> trace ls' = trace ls @ [Run t opts]) \<and>
   (\<forall>t opts i r ls r' ls' tm. runAxeCheck_once h t opts i r ls = Again r' ls' \<longrightarrow>
      builder ls' = builder ls \<and>
      trace ls' = trace ls @ [Run t opts, SetTimeout (or_number i (Finite 1000))] \<and>
      runAxeCheck h t opts i tm r ls = runAxeCheck h t opts i True r' ls')"
proof (intro conjI)
  show "\<forall>res s'. analyze h s = Some (res, s') \<longrightarrow>
      builder s' = builder s \<and>
      (\<forall>ev\<in>set (new_events s s'). is_Run ev \<longrightarrow>
         ev = Run (scan_target s) (engine_options s))"
  proof (intro allI impI)
    fix res s' assume settled: "analyze h s = Some (res, s')"
    from analyze_shape [OF settled] have "builder s' = builder s" by blast
    moreover have "\<forall>ev\<in>set (new_events s s'). is_Run ev \<longrightarrow>
         ev = Run (scan_target s) (engine_options s)"
      using analyze_runs [OF settled] by blast
    ultimately show "builder s' = builder s \<and>
      (\<forall>ev\<in>set (new_events s s'). is_Run ev \<longrightarrow>
         ev = Run (scan_target s) (engine_options s))" ..
  qed
  show "\<forall>t opts i r ls e ls'. runAxeCheck_once h t opts i r ls = Threw e ls' \<longrightarrow>
      builder ls' = builder ls \<and>
      (trace ls' = trace ls \<or> trace ls' = trace ls @ [Run t opts])"
    using once_Threw by blast
  show "\<forall>t opts i r ls res ls'. runAxeCheck_once h t opts i r ls = Settled res ls' \<longrightarrow>
      builder ls' = builder ls \<and> trace ls' = trace ls @ [Run t opts]"
    using once_Settled by blast
  show "\<forall>t opts i r ls r' ls' tm. runAxeCheck_once h t opts i r ls = Again r' ls' \<longrightarrow>
      builder ls' = builder ls \<and>
      trace ls' = trace ls @ [Run t opts, SetTimeout (or_number i (Finite 1000))] \<and>
      runAxeCheck h t opts i tm r ls = runAxeCheck h t opts i True r' ls'"
  proof (intro allI impI)
    fix t opts i r r' tm and ls ls' :: "'a state"
    assume a: "runAxeCheck_once h t opts i r ls = Again r' ls'"
    from once_Again [OF a] runAxeCheck_again [OF a, of tm]
    show "builder ls' = builder ls \<and>
      trace ls' = trace ls @ [Run t opts, SetTimeout (or_number i (Finite 1000))] \<and>
      runAxeCheck h t opts i tm r ls = runAxeCheck h t opts i True r' ls'"
      by simp
  qed
qed (simp_all add: axeOptions_of_def)

theorem analyze_frame_witness:
  "\<exists>res s'.
     analyze (stub_host (\<lambda>n. Resolves \<lparr>violations = [''image-alt'']\<rparr>))
       (stub_state (withTags (One ''wcag2a'') (AxeBuilder_include ''body'' (retrying (Value (Finite 1)) Absent)))
          page_with_axe) = Some (res, s') \<and>
     builder s' =
       withTags (One ''wcag2a'') (AxeBuilder_include ''body'' (retrying (Value (Finite 1)) Absent)) \<and>
     last (trace s') =
       Run (Context \<lparr>ctx_include = Some [''body''], ctx_exclude = None\<rparr>)
         \<lparr>interval = Absent, retries = Absent,
          runOnly = Value \<lparr>ro_type = ''tag'', ro_values = [''wcag2a'']\<rparr>,
          rules = Absent, rest = []\<rparr>"
proof -
  let ?h = "stub_host (\<lambda>n. Resolves \<lparr>violations = [''image-alt'']\<rparr>)"
  let ?b = "withTags (One ''wcag2a'') (AxeBuilder_include ''body'' (retrying (Value (Finite 1)) Absent))"
  let ?s = "stub_state ?b page_with_axe"
  have viol: "\<forall>e. \<exists>res e'. axe_run ?h (scan_target ?s) (engine_options ?s) e = (Resolves res, e')
      \<and> violations res \<noteq> []"
    by (simp add: stub_host_def)
  have r: "retries (priv_options (builder ?s)) = Value (Finite (of_int 1))"
    by (simp add: stub_state_def withTags_def AxeBuilder_include_def retrying_fields)
  from analyze_always_violating [OF stub_injected stub_run_callable viol r]
  obtain res eng where an: "analyze ?h ?s =
       Some (Inr res,
         ?s\<lparr>engine := eng,
            trace := trace ?s @ concat (replicate (nat 1)
                       [Run (scan_target ?s) (engine_options ?s), SetTimeout (retry_delay ?s)])
                     @ [Run (scan_target ?s) (engine_options ?s)]\<rparr>)"
    by auto
  define s' where "s' = ?s\<lparr>engine := eng,
            trace := trace ?s @ concat (replicate (nat 1)
                       [Run (scan_target ?s) (engine_options ?s), SetTimeout (retry_delay ?s)])
                     @ [Run (scan_target ?s) (engine_options ?s)]\<rparr>"
  from an have settled: "analyze ?h ?s = Some (Inr res, s')" by (simp only: s'_def)
  note frame = analyze_frame [of ?h ?s, THEN conjunct1]
  from frame settled have b: "builder s' = builder ?s"
    and runs: "\<forall>ev\<in>set (new_events ?s s'). is_Run ev \<longrightarrow>
         ev = Run (scan_target ?s) (engine_options ?s)"
    by blast+
  have ne: "new_events ?s s' =
      concat (replicate (nat 1)
        [Run (scan_target ?s) (engine_options ?s), SetTimeout (retry_delay ?s)])
      @ [Run (scan_target ?s) (engine_options ?s)]"
    by (simp add: new_events_def s'_def stub_state_def)
  then have lst: "last (new_events ?s s') \<in> set (new_events ?s s')"
    and isrun: "is_Run (last (new_events ?s s'))"
    by simp_all
  with runs have "last (new_events ?s s') = Run (scan_target ?s) (engine_options ?s)" by blast
  moreover have "last (trace s') = last (new_events ?s s')"
    using ne by (simp add: s'_def stub_state_def)
  moreover have "scan_target ?s = Context \<lparr>ctx_include = Some [''body''], ctx_exclude = None\<rparr>"
    by (simp add: stub_state_def withTags_def AxeBuilder_include_def retrying_fields
          buildContext_def)
  moreover have "engine_options ?s =
       \<lparr>interval = Absent, retries = Absent,
        runOnly = Value \<lparr>ro_type = ''tag'', ro_values = [''wcag2a'']\<rparr>,
        rules = Absent, rest = []\<rparr>"
    by (simp add: stub_state_def withTags_def AxeBuilder_include_def retrying_def options_def
          spread_def new_AxeBuilder_def axeOptions_of_def)
  ultimately have "last (trace s') =
       Run (Context \<lparr>ctx_include = Some [''body''], ctx_exclude = None\<rparr>)
         \<lparr>interval = Absent, retries = Absent,
          runOnly = Value \<lparr>ro_type = ''tag'', ro_values = [''wcag2a'']\<rparr>,
          rules = Absent, rest = []\<rparr>"
    by simp
  moreover from b have "builder s' = ?b" by (simp add: stub_state_def)
  ultimately show ?thesis using settled by blast
qed

text \<open>
  C8. When injection fails, \<open>analyze\<close> and \<open>configure\<close> fail with the very error of the
  injection and stop in the state injection left, whose new events hold no engine run and
  no engine configure. That covers a script that cannot be located (the path lookup
  fails: nothing is read) and one that cannot be read (the read fails: nothing is
  evaluated). In every call, what injection adds to the trace comes before any engine
  call, and there is an engine call only after injection has succeeded.
\<close>

theorem injection_failure_propagates:
  "(\<forall>e s1. ensureAxeInjected h s = (Inl e, s1) \<longrightarrow>
      analyze h s = Some (Inl e, s1) \<and> configure h config s = (Inl e, s1) \<and>
      (\<exists>evs. trace s1 = trace s @ evs \<and> (\<forall>ev\<in>set evs. \<not> is_Run ev \<and> \<not> is_Configure ev))) \<and>
   (\<forall>e. isAxeInjected (win s) = Inr False \<and> getAxeCorePath h = Inl e \<longrightarrow>
      analyze h s = Some (Inl e, s) \<and> configure h config s = (Inl e, s)) \<and>
   (\<forall>path e. isAxeInjected (win s) = Inr False \<and> getAxeCorePath h = Inr path \<and>
        cy_readFile h path = Inl e \<longrightarrow>
      analyze h s = Some (Inl e, s\<lparr>trace := trace s @ [ReadFile path]\<rparr>) \<and>
      configure h config s = (Inl e, s\<lparr>trace := trace s @ [ReadFile path]\<rparr>)) \<and>
   (\<forall>res s'. analyze h s = Some (res, s') \<longrightarrow>
      (\<exists>pre scan.
         trace (snd (ensureAxeInjected h s)) = trace s @ pre \<and>
         trace s' = trace s @ pre @ scan \<and>
         (\<forall>ev\<in>set pre. \<not> is_Run ev \<and> \<not> is_Configure ev) \<and>
         (scan \<noteq> [] \<longrightarrow> fst (ensureAxeInjected h s) = Inr ()))) \<and>
   (analyze h s = None \<longrightarrow> fst (ensureAxeInjected h s) = Inr ()) \<and>
   (\<exists>pre conf.
      trace (snd (ensureAxeInjected h s)) = trace s @ pre \<and>
      trace (snd (configure h config s)) = trace s @ pre @ conf \<and>
      (\<forall>ev\<in>set pre. \<not> is_Run ev \<and> \<not> is_Configure ev) \<and>
      (conf \<noteq> [] \<longrightarrow> fst (ensureAxeInjected h s) = Inr ()))"
proof (intro conjI)
  show "\<forall>e s1. ensureAxeInjected h s = (Inl e, s1) \<longrightarrow>
      analyze h s = Some (Inl e, s1) \<and> configure h config s = (Inl e, s1) \<and>
      (\<exists>evs. trace s1 = trace s @ evs \<and> (\<forall>ev\<in>set evs. \<not> is_Run ev \<and> \<not> is_Configure ev))"
  proof (intro allI impI)
    fix e s1 assume ens: "ensureAxeInjected h s = (Inl e, s1)"
    then have "analyze h s = Some (Inl e, s1)" by (rule analyze_injection_failed)
    moreover from ens have "configure h config s = (Inl e, s1)" by (simp add: configure_def)
    moreover from ensureAxeInjected_frame [OF ens]
    have "\<exists>evs. trace s1 = trace s @ evs \<and> (\<forall>ev\<in>set evs. \<not> is_Run ev \<and> \<not> is_Configure ev)"
      by simp
    ultimately show "analyze h s = Some (Inl e, s1) \<and> configure h config s = (Inl e, s1) \<and>
      (\<exists>evs. trace s1 = trace s @ evs \<and> (\<forall>ev\<in>set evs. \<not> is_Run ev \<and> \<not> is_Configure ev))"
      by simp
  qed
  show "\<forall>e. isAxeInjected (win s) = Inr False \<and> getAxeCorePath h = Inl e \<longrightarrow>
      analyze h s = Some (Inl e, s) \<and> configure h config s = (Inl e, s)"
    by (simp add: analyze_def configure_def ensureAxeInjected_def)
  show "\<forall>path e. isAxeInjected (win s) = Inr False \<and> getAxeCorePath h = Inr path \<and>
        cy_readFile h path = Inl e \<longrightarrow>
      analyze h s = Some (Inl e, s\<lparr>trace := trace s @ [ReadFile path]\<rparr>) \<and>
      configure h config s = (Inl e, s\<lparr>trace := trace s @ [ReadFile path]\<rparr>)"
    by (simp add: analyze_def configure_def ensureAxeInjected_def)
  show "\<forall>res s'. analyze h s = Some (res, s') \<longrightarrow>
      (\<exists>pre scan.
         trace (snd (ensureAxeInjected h s)) = trace s @ pre \<and>
         trace s' = trace s @ pre @ scan \<and>
         (\<forall>ev\<in>set pre. \<not> is_Run ev \<and> \<not> is_Configure ev) \<and>
         (scan \<noteq> [] \<longrightarrow> fst (ensureAxeInjected h s) = Inr ()))"
  proof (intro allI impI)
    fix res s' assume settled: "analyze h s = Some (res, s')"
    from analyze_shape [OF settled]
    show "\<exists>pre scan.
         trace (snd (ensureAxeInjected h s)) = trace s @ pre \<and>
         trace s' = trace s @ pre @ scan \<and>
         (\<forall>ev\<in>set pre. \<not> is_Run ev \<and> \<not> is_Configure ev) \<and>
         (scan \<noteq> [] \<longrightarrow> fst (ensureAxeInjected h s) = Inr ())"
      by blast
  qed
  show "analyze h s = None \<longrightarrow> fst (ensureAxeInjected h s) = Inr ()"
    by (auto simp: analyze_def split: prod.splits sum.splits)
  show "\<exists>pre conf.
      trace (snd (ensureAxeInjected h s)) = trace s @ pre \<and>
      trace (snd (configure h config s)) = trace s @ pre @ conf \<and>
      (\<forall>ev\<in>set pre. \<not> is_Run ev \<and> \<not> is_Configure ev) \<and>
      (conf \<noteq> [] \<longrightarrow> fst (ensureAxeInjected h s) = Inr ())"
  proof -
    obtain r s1 where ens: "ensureAxeInjected h s = (r, s1)" by (cases "ensureAxeInjected h s")
    from ensureAxeInjected_frame [OF ens] obtain pre where
      pre: "trace s1 = trace s @ pre" "\<forall>ev\<in>set pre. \<not> is_Run ev \<and> \<not> is_Configure ev"
      by blast
    have "\<exists>conf. trace (snd (configure h config s)) = trace s1 @ conf \<and>
        (conf \<noteq> [] \<longrightarrow> r = Inr ())"
      using ens by (auto simp: configure_def split: sum.splits prod.splits)
    then obtain conf where "trace (snd (configure h config s)) = trace s1 @ conf"
      "conf \<noteq> [] \<longrightarrow> r = Inr ()" by blast
    with ens pre show ?thesis
      by (intro exI [of _ pre] exI [of _ conf]) simp
  qed
qed

theorem injection_failure_propagates_witness:
  "analyze (stub_host (\<lambda>n. Resolves \<lparr>violations = []\<rparr>)) (stub_state new_AxeBuilder []) =
     Some (Inl (ResourceNotFound ''node_modules/axe-core/axe.min.js''),
      \<lparr>builder = new_AxeBuilder, win = [], engine = 0,
       trace = [ReadFile ''node_modules/axe-core/axe.min.js'']\<rparr>) \<and>
   configure (stub_host (\<lambda>n. Resolves \<lparr>violations = []\<rparr>)) JNull (stub_state new_AxeBuilder []) =
     (Inl (ResourceNotFound ''node_modules/axe-core/axe.min.js''),
      \<lparr>builder = new_AxeBuilder, win = [], engine = 0,
       trace = [ReadFile ''node_modules/axe-core/axe.min.js'']\<rparr>)"
proof -
  let ?h = "stub_host (\<lambda>n. Resolves \<lparr>violations = []\<rparr>)"
  let ?s = "stub_state new_AxeBuilder []"
  let ?p = "''node_modules/axe-core/axe.min.js''"
  have hyps: "isAxeInjected (win ?s) = Inr False \<and> getAxeCorePath ?h = Inr ?p \<and>
      cy_readFile ?h ?p = Inl (ResourceNotFound ?p)"
    by (simp add: isAxeInjected_def has_property_def stub_state_def getAxeCorePath_def
          stub_host_def)
  have "analyze ?h ?s =
        Some (Inl (ResourceNotFound ?p), ?s\<lparr>trace := trace ?s @ [ReadFile ?p]\<rparr>) \<and>
      configure ?h JNull ?s = (Inl (ResourceNotFound ?p), ?s\<lparr>trace := trace ?s @ [ReadFile ?p]\<rparr>)"
    using injection_failure_propagates [of ?h ?s JNull, THEN conjunct2, THEN conjunct2,
        THEN conjunct1] hyps
    by blast
  then show ?thesis by (simp add: stub_state_def)
qed

text \<open>
  C10. A falsy setting counts as unset. With \<open>interval\<close> set to 0 the delay before every
  retry is 1000. With \<open>retries\<close> set to 0 a call of \<open>analyze\<close> settles after at most one
  engine run, and after exactly one once injection has succeeded and \<open>axe.run\<close> is
  callable; and it does what the call with \<open>retries\<close> unset does: the same outcome,
  trace, engine state and globals.
\<close>

theorem falsy_retry_settings:
  "(interval (priv_options (builder s)) = Value (Finite 0) \<longrightarrow>
      retry_delay s = Finite 1000 \<and>
      (\<forall>res s' d. analyze h s = Some (res, s') \<and> SetTimeout d \<in> set (new_events s s') \<longrightarrow>
         d = Finite 1000)) \<and>
   (retries (priv_options (builder s)) = Value (Finite 0) \<longrightarrow>
      (\<exists>res s'. analyze h s = Some (res, s') \<and> run_count (new_events s s') \<le> 1 \<and>
         (\<forall>s1. ensureAxeInjected h s = (Inr (), s1) \<and> axe_method (win s1) ''run'' = Inr () \<longrightarrow>
            run_count (new_events s s') = 1))) \<and>
   (\<exists>res s0 sA.
      analyze h (set_retries (Value (Finite 0)) s) = Some (res, s0) \<and>
      analyze h (set_retries Absent s) = Some (res, sA) \<and>
      trace s0 = trace sA \<and> engine s0 = engine sA \<and> win s0 = win sA \<and>
      new_events (set_retries (Value (Finite 0)) s) s0 = new_events (set_retries Absent s) sA)"
proof (intro conjI)
  show "interval (priv_options (builder s)) = Value (Finite 0) \<longrightarrow>
      retry_delay s = Finite 1000 \<and>
      (\<forall>res s' d. analyze h s = Some (res, s') \<and> SetTimeout d \<in> set (new_events s s') \<longrightarrow>
         d = Finite 1000)"
  proof
    assume z: "interval (priv_options (builder s)) = Value (Finite 0)"
    then have d: "retry_delay s = Finite 1000" by simp
    moreover have "\<forall>res s' d. analyze h s = Some (res, s') \<and>
        SetTimeout d \<in> set (new_events s s') \<longrightarrow> d = Finite 1000"
      using analyze_timeouts [of h s] d by auto
    ultimately show "retry_delay s = Finite 1000 \<and>
      (\<forall>res s' d. analyze h s = Some (res, s') \<and> SetTimeout d \<in> set (new_events s s') \<longrightarrow>
         d = Finite 1000)" by simp
  qed
  show "retries (priv_options (builder s)) = Value (Finite 0) \<longrightarrow>
      (\<exists>res s'. analyze h s = Some (res, s') \<and> run_count (new_events s s') \<le> 1 \<and>
         (\<forall>s1. ensureAxeInjected h s = (Inr (), s1) \<and> axe_method (win s1) ''run'' = Inr () \<longrightarrow>
            run_count (new_events s s') = 1))"
  proof
    assume z: "retries (priv_options (builder s)) = Value (Finite 0)"
    then have spent: "\<not> gt_zero (retry_budget s)" by simp
    from analyze_budget_spent [OF spent refl refl refl refl, of h]
    show "\<exists>res s'. analyze h s = Some (res, s') \<and> run_count (new_events s s') \<le> 1 \<and>
         (\<forall>s1. ensureAxeInjected h s = (Inr (), s1) \<and> axe_method (win s1) ''run'' = Inr () \<longrightarrow>
            run_count (new_events s s') = 1)"
      by blast
  qed
  show "\<exists>res s0 sA.
      analyze h (set_retries (Value (Finite 0)) s) = Some (res, s0) \<and>
      analyze h (set_retries Absent s) = Some (res, sA) \<and>
      trace s0 = trace sA \<and> engine s0 = engine sA \<and> win s0 = win sA \<and>
      new_events (set_retries (Value (Finite 0)) s) s0 = new_events (set_retries Absent s) sA"
  proof -
    let ?sA = "set_retries Absent s"
    let ?b0 = "builder (set_retries (Value (Finite 0)) s)"
    have same: "?sA\<lparr>builder := ?b0\<rparr> = set_retries (Value (Finite 0)) s"
      by (simp add: set_retries_def)
    have spent: "\<not> gt_zero (retry_budget ?sA)" by (simp add: set_retries_def)
    have ctx: "buildContext ?b0 = buildContext (builder ?sA)"
      by (simp add: set_retries_def buildContext_def Let_def)
    have opts: "axeOptions_of (priv_options ?b0) = engine_options ?sA"
      by (simp add: set_retries_def axeOptions_of_def)
    have ival: "interval (priv_options ?b0) = interval (priv_options (builder ?sA))"
      by (simp add: set_retries_def)
    have budget: "or_number (retries (priv_options ?b0)) (Finite 0) = retry_budget ?sA"
      by (simp add: set_retries_def)
    from analyze_budget_spent [OF spent ctx opts ival budget, of h]
    obtain res sA where a: "analyze h ?sA = Some (res, sA)"
      and b: "analyze h (?sA\<lparr>builder := ?b0\<rparr>) = Some (res, sA\<lparr>builder := ?b0\<rparr>)"
      by blast
    from b have b': "analyze h (set_retries (Value (Finite 0)) s) = Some (res, sA\<lparr>builder := ?b0\<rparr>)"
      by (simp only: same)
    have "new_events (set_retries (Value (Finite 0)) s) (sA\<lparr>builder := ?b0\<rparr>) =
        new_events ?sA sA"
      by (simp add: new_events_def set_retries_def)
    with a b' show ?thesis
      by (intro exI [of _ res] exI [of _ "sA\<lparr>builder := ?b0\<rparr>"] exI [of _ sA]) simp
  qed
qed

theorem falsy_retry_settings_witness:
  "(\<exists>res eng. analyze (stub_host (\<lambda>n. Resolves \<lparr>violations = [''image-alt'']\<rparr>))
       (stub_state (retrying (Value (Finite 1)) (Value (Finite 0))) page_with_axe) =
     Some (Inr res,
       \<lparr>builder = retrying (Value (Finite 1)) (Value (Finite 0)), win = page_with_axe, engine = eng,
        trace =
          [Run Document (axeOptions_of (priv_options (retrying (Value (Finite 1)) (Value (Finite 0))))),
           SetTimeout (Finite 1000),
           Run Document (axeOptions_of (priv_options (retrying (Value (Finite 1)) (Value (Finite 0)))))]\<rparr>)) \<and>
   (\<exists>res s'. analyze (stub_host (\<lambda>n. Resolves \<lparr>violations = [''image-alt'']\<rparr>))
       (stub_state (retrying (Value (Finite 0)) Absent) page_with_axe) = Some (res, s') \<and>
     run_count (new_events (stub_state (retrying (Value (Finite 0)) Absent) page_with_axe) s') = 1)"
proof
  let ?h = "stub_host (\<lambda>n. Resolves \<lparr>violations = [''image-alt'']\<rparr>)"
  let ?s = "stub_state (retrying (Value (Finite 1)) (Value (Finite 0))) page_with_axe"
  have viol: "\<forall>e. \<exists>res e'. axe_run ?h (scan_target ?s) (engine_options ?s) e = (Resolves res, e')
      \<and> violations res \<noteq> []"
    by (simp add: stub_host_def)
  have r: "retries (priv_options (builder ?s)) = Value (Finite (of_int 1))"
    by (simp add: stub_state_def retrying_fields)
  from analyze_always_violating [OF stub_injected stub_run_callable viol r]
  obtain res eng where an: "analyze ?h ?s =
       Some (Inr res,
         ?s\<lparr>engine := eng,
            trace := trace ?s @ concat (replicate (nat 1)
                       [Run (scan_target ?s) (engine_options ?s), SetTimeout (retry_delay ?s)])
                     @ [Run (scan_target ?s) (engine_options ?s)]\<rparr>)"
    by auto
  define s' where "s' = ?s\<lparr>engine := eng,
            trace := trace ?s @ concat (replicate (nat 1)
                       [Run (scan_target ?s) (engine_options ?s), SetTimeout (retry_delay ?s)])
                     @ [Run (scan_target ?s) (engine_options ?s)]\<rparr>"
  from an have settled: "analyze ?h ?s = Some (Inr res, s')" by (simp only: s'_def)
  have mem: "SetTimeout (retry_delay ?s) \<in> set (new_events ?s s')"
    by (simp add: new_events_def s'_def stub_state_def)
  have zero: "interval (priv_options (builder ?s)) = Value (Finite 0)"
    by (simp add: stub_state_def retrying_fields)
  from falsy_retry_settings [of ?s ?h, THEN conjunct1] zero settled mem
  have delay: "retry_delay ?s = Finite 1000" by blast
  have "s' = \<lparr>builder = retrying (Value (Finite 1)) (Value (Finite 0)), win = page_with_axe,
        engine = eng,
        trace =
          [Run Document (axeOptions_of (priv_options (retrying (Value (Finite 1)) (Value (Finite 0))))),
           SetTimeout (Finite 1000),
           Run Document (axeOptions_of (priv_options (retrying (Value (Finite 1)) (Value (Finite 0)))))]\<rparr>"
    unfolding s'_def delay by (simp add: stub_state_def retrying_fields buildContext_def)
  with settled show "\<exists>res eng. analyze ?h ?s =
     Some (Inr res,
       \<lparr>builder = retrying (Value (Finite 1)) (Value (Finite 0)), win = page_with_axe, engine = eng,
        trace =
          [Run Document (axeOptions_of (priv_options (retrying (Value (Finite 1)) (Value (Finite 0))))),
           SetTimeout (Finite 1000),
           Run Document (axeOptions_of (priv_options (retrying (Value (Finite 1)) (Value (Finite 0)))))]\<rparr>)"
    by blast
next
  let ?h = "stub_host (\<lambda>n. Resolves \<lparr>violations = [''image-alt'']\<rparr>)"
  let ?s = "stub_state (retrying (Value (Finite 0)) Absent) page_with_axe"
  have z: "retries (priv_options (builder ?s)) = Value (Finite 0)"
    by (simp add: stub_state_def retrying_fields)
  with falsy_retry_settings [of ?s ?h, THEN conjunct2, THEN conjunct1]
  obtain res s' where settled: "analyze ?h ?s = Some (res, s')"
    and one: "\<forall>s1. ensureAxeInjected ?h ?s = (Inr (), s1) \<and> axe_method (win s1) ''run'' = Inr () \<longrightarrow>
            run_count (new_events ?s s') = 1"
    by blast
  from one stub_injected [of "\<lambda>n. Resolves \<lparr>violations = [''image-alt'']\<rparr>"
      "retrying (Value (Finite 0)) Absent"]
    stub_run_callable [of "retrying (Value (Finite 0)) Absent"]
  have "run_count (new_events ?s s') = 1" by blast
  with settled show "\<exists>res s'. analyze ?h ?s = Some (res, s') \<and>
     run_count (new_events ?s s') = 1"
    by blast
qed

end
